theory Spec2Isabelle
  imports Complex_Main "HOL-Library.AList"
begin

section \<open>JavaScript numbers\<close>

text \<open>
  The oracle computes with JavaScript numbers. Quote prices, weights and latencies are
  finite numbers and are modelled as reals. A division can leave the finite numbers: in
  JavaScript \<open>x / 0\<close> is \<open>Infinity\<close>, \<open>-Infinity\<close> or \<open>NaN\<close>, never an exception and
  never \<open>0\<close>. The results of \<open>calculateAggregatedPrice\<close> are therefore values of
  \<open>jsnum\<close>, with the arithmetic of the language on the three special values. The
  operations of this section are exact; the rounding of every operation to a double,
  with overflow to an infinity, is added in the section on binary64 arithmetic (the
  sign of zero is not modelled).
\<close>

datatype jsnum = Fin real | PosInf | NegInf | NaN

fun js_neg :: "jsnum \<Rightarrow> jsnum" where
  "js_neg (Fin a) = Fin (- a)"
| "js_neg PosInf = NegInf"
| "js_neg NegInf = PosInf"
| "js_neg NaN = NaN"

fun js_add :: "jsnum \<Rightarrow> jsnum \<Rightarrow> jsnum" where
  "js_add (Fin a) (Fin b) = Fin (a + b)"
| "js_add (Fin a) PosInf = PosInf"
| "js_add (Fin a) NegInf = NegInf"
| "js_add PosInf (Fin b) = PosInf"
| "js_add PosInf PosInf = PosInf"
| "js_add PosInf NegInf = NaN"
| "js_add NegInf (Fin b) = NegInf"
| "js_add NegInf PosInf = NaN"
| "js_add NegInf NegInf = NegInf"
| "js_add NaN y = NaN"
| "js_add x NaN = NaN"

definition js_sub :: "jsnum \<Rightarrow> jsnum \<Rightarrow> jsnum" where
  "js_sub x y = js_add x (js_neg y)"

text \<open>The sign of an infinite product or quotient, given the sign of the finite operand.\<close>

definition signed_inf :: "bool \<Rightarrow> jsnum" where
  "signed_inf positive = (if positive then PosInf else NegInf)"

fun js_mul :: "jsnum \<Rightarrow> jsnum \<Rightarrow> jsnum" where
  "js_mul (Fin a) (Fin b) = Fin (a * b)"
| "js_mul (Fin a) PosInf = (if a = 0 then NaN else signed_inf (0 < a))"
| "js_mul (Fin a) NegInf = (if a = 0 then NaN else signed_inf (a < 0))"
| "js_mul PosInf (Fin b) = (if b = 0 then NaN else signed_inf (0 < b))"
| "js_mul NegInf (Fin b) = (if b = 0 then NaN else signed_inf (b < 0))"
| "js_mul PosInf PosInf = PosInf"
| "js_mul PosInf NegInf = NegInf"
| "js_mul NegInf PosInf = NegInf"
| "js_mul NegInf NegInf = PosInf"
| "js_mul NaN y = NaN"
| "js_mul x NaN = NaN"

fun js_div :: "jsnum \<Rightarrow> jsnum \<Rightarrow> jsnum" where
  "js_div (Fin a) (Fin b) =
     (if b = 0 then (if a = 0 then NaN else signed_inf (0 < a)) else Fin (a / b))"
| "js_div (Fin a) PosInf = Fin 0"
| "js_div (Fin a) NegInf = Fin 0"
| "js_div PosInf (Fin b) = signed_inf (0 \<le> b)"
| "js_div NegInf (Fin b) = signed_inf (b < 0)"
| "js_div PosInf PosInf = NaN"
| "js_div PosInf NegInf = NaN"
| "js_div NegInf PosInf = NaN"
| "js_div NegInf NegInf = NaN"
| "js_div NaN y = NaN"
| "js_div x NaN = NaN"

text \<open>\<open>Math.sqrt\<close>, \<open>Math.pow(x, 2)\<close>, \<open>Math.max\<close> and \<open>Math.min\<close>.\<close>

fun Math_sqrt :: "jsnum \<Rightarrow> jsnum" where
  "Math_sqrt (Fin a) = (if a < 0 then NaN else Fin (sqrt a))"
| "Math_sqrt PosInf = PosInf"
| "Math_sqrt NegInf = NaN"
| "Math_sqrt NaN = NaN"

fun Math_pow2 :: "jsnum \<Rightarrow> jsnum" where
  "Math_pow2 (Fin a) = Fin (a ^ 2)"
| "Math_pow2 PosInf = PosInf"
| "Math_pow2 NegInf = PosInf"
| "Math_pow2 NaN = NaN"

fun Math_max :: "jsnum \<Rightarrow> jsnum \<Rightarrow> jsnum" where
  "Math_max (Fin a) (Fin b) = Fin (max a b)"
| "Math_max (Fin a) PosInf = PosInf"
| "Math_max (Fin a) NegInf = Fin a"
| "Math_max PosInf (Fin b) = PosInf"
| "Math_max PosInf PosInf = PosInf"
| "Math_max PosInf NegInf = PosInf"
| "Math_max NegInf (Fin b) = Fin b"
| "Math_max NegInf PosInf = PosInf"
| "Math_max NegInf NegInf = NegInf"
| "Math_max NaN y = NaN"
| "Math_max x NaN = NaN"

fun Math_min :: "jsnum \<Rightarrow> jsnum \<Rightarrow> jsnum" where
  "Math_min (Fin a) (Fin b) = Fin (min a b)"
| "Math_min (Fin a) PosInf = Fin a"
| "Math_min (Fin a) NegInf = NegInf"
| "Math_min PosInf (Fin b) = Fin b"
| "Math_min PosInf PosInf = PosInf"
| "Math_min PosInf NegInf = NegInf"
| "Math_min NegInf (Fin b) = NegInf"
| "Math_min NegInf PosInf = NegInf"
| "Math_min NegInf NegInf = NegInf"
| "Math_min NaN y = NaN"
| "Math_min x NaN = NaN"

section \<open>Data model (types.ts)\<close>

text \<open>
  A \<open>Date\<close> is its number of milliseconds since the epoch. Fields that several
  interfaces share by name carry a prefix here: \<open>SourcePriceDetail\<close> has \<open>detail_\<close>,
  the \<open>timestamp\<close> of \<open>AggregatedPrice\<close> is \<open>computed_at\<close>, \<open>SourceStatus\<close> has
  \<open>status_name\<close>, and the protected fields \<open>name\<close>, \<open>weight\<close>, \<open>symbol\<close> of the class
  \<open>PriceSource\<close> are \<open>src_name\<close>, \<open>src_weight\<close>, \<open>src_symbol\<close>.
\<close>

type_synonym date = int

record PriceData =
  price :: real
  timestamp :: date
  source :: string
  weight :: "real option"

record SourcePriceDetail =
  detail_price :: real
  detail_weight :: real
  detail_timestamp :: date

record AggregatedPrice =
  symbol :: string
  price_usd :: jsnum
  computed_at :: date
  sources_used :: nat
  total_sources :: nat
  aggregation_method :: string
  source_prices :: "(string \<times> SourcePriceDetail) list"
  confidence_score :: jsnum
  cache_hit :: bool

datatype source_state = active | error | disabled

record SourceStatus =
  status_name :: string
  status :: source_state
  last_success :: "date option"
  last_error :: "string option"
  success_rate :: real
  avg_response_time_ms :: real

record PriceSource =
  src_name :: string
  src_weight :: real
  src_symbol :: string
  lastSuccess :: "date option"
  lastError :: "string option"
  successCount :: nat
  errorCount :: nat
  responseTimes :: "real list"

text \<open>The constructor of \<open>PriceSource\<close> with its field initialisers.\<close>

definition new_PriceSource :: "string \<Rightarrow> real \<Rightarrow> string \<Rightarrow> PriceSource" where
  "new_PriceSource n w s =
     \<lparr>src_name = n, src_weight = w, src_symbol = s, lastSuccess = None, lastError = None,
      successCount = 0, errorCount = 0, responseTimes = []\<rparr>"

definition getStatus :: "PriceSource \<Rightarrow> SourceStatus" where
  "getStatus this =
     (let totalRequests = successCount this + errorCount this;
          successRate = (if totalRequests > 0
                         then real (successCount this) / real totalRequests else 0);
          avgResponseTime = (if length (responseTimes this) > 0
                             then foldl (\<lambda>a b. a + b) 0 (responseTimes this)
                                    / real (length (responseTimes this))
                             else 0)
      in \<lparr>status_name = src_name this,
          status = (if errorCount this = 0 \<or> successCount this > 0 then active else error),
          last_success = lastSuccess this,
          last_error = lastError this,
          success_rate = successRate,
          avg_response_time_ms = avgResponseTime\<rparr>)"

text \<open>
  \<open>recordSuccess\<close> pushes the response time and then drops the first element
  (\<open>shift\<close>) when the array has grown beyond 100. The argument \<open>now\<close> is \<open>new Date()\<close>.
\<close>

definition recordSuccess :: "date \<Rightarrow> real \<Rightarrow> PriceSource \<Rightarrow> PriceSource" where
  "recordSuccess now responseTime this =
     (let pushed = responseTimes this @ [responseTime]
      in this\<lparr>successCount := successCount this + 1,
              lastSuccess := Some now,
              responseTimes := (if length pushed > 100 then tl pushed else pushed)\<rparr>)"

definition recordError :: "string \<Rightarrow> PriceSource \<Rightarrow> PriceSource" where
  "recordError err this = this\<lparr>errorCount := errorCount this + 1, lastError := Some err\<rparr>"

text \<open>The health-tracking calls a source makes over its lifetime.\<close>

datatype health_event = Success date real | Failure string

fun record_event :: "PriceSource \<Rightarrow> health_event \<Rightarrow> PriceSource" where
  "record_event this (Success now responseTime) = recordSuccess now responseTime this"
| "record_event this (Failure err) = recordError err this"

definition record_events :: "PriceSource \<Rightarrow> health_event list \<Rightarrow> PriceSource" where
  "record_events this evs = foldl record_event this evs"

text \<open>
  The response times passed to \<open>recordSuccess\<close> over a run of events, oldest first, and
  the last 100 elements of a list (the whole list when it is shorter).
\<close>

fun latencies :: "health_event list \<Rightarrow> real list" where
  "latencies [] = []"
| "latencies (Success now responseTime # evs) = responseTime # latencies evs"
| "latencies (Failure err # evs) = latencies evs"

definition last100 :: "real list \<Rightarrow> real list" where
  "last100 xs = drop (length xs - 100) xs"

section \<open>Configuration and logger (config.ts, utils/logger.ts)\<close>

text \<open>
  The three numeric options the aggregation uses; each is read with \<open>parseInt\<close>, so it is
  an integer. \<open>cacheTTL\<close> is in seconds.
\<close>

record config =
  cacheTTL :: int
  outlierThresholdPercent :: int
  minSourcesRequired :: int

text \<open>
  A call of the logger is recorded as its level and message; the metadata object is
  dropped. The functions below that log return the entries they emit, in order.
\<close>

datatype log_level = Debug | Info | Warn

type_synonym log_entry = "log_level \<times> string"

section \<open>Cache service (services/cache.ts)\<close>

type_synonym node_cache = "string \<Rightarrow> (AggregatedPrice \<times> date) option"

text \<open>
  Modelled from the spec: the class \<open>NodeCache\<close> of the package node-cache, which
  \<open>CacheService\<close> wraps, is not part of the repository. Following the Result Cache of the
  specification, a slot holds the stored value and its expiry timestamp, set from the
  time to live (in seconds) at write time; \<open>get\<close> returns the stored value only if it has
  not expired and signals a miss otherwise; \<open>set\<close> overwrites the slot and resets the
  expiry.
\<close>

definition NodeCache_get :: "date \<Rightarrow> string \<Rightarrow> node_cache \<Rightarrow> AggregatedPrice option" where
  "NodeCache_get now key c =
     (case c key of
        None \<Rightarrow> None
      | Some (v, expiry) \<Rightarrow> if expiry < now then None else Some v)"

text \<open>
  Modelled from the spec: \<open>set\<close> of the same absent class; it overwrites the slot of the
  key and sets the expiry to the time of the write plus the time to live.
\<close>

definition NodeCache_set :: "date \<Rightarrow> string \<Rightarrow> AggregatedPrice \<Rightarrow> int \<Rightarrow> node_cache \<Rightarrow> node_cache" where
  "NodeCache_set now key v ttl c = c(key \<mapsto> (v, now + ttl * 1000))"

text \<open>
  Modelled from the spec: the \<open>expired\<close> event of the same absent class, which it emits
  when a lookup finds a stored value whose expiry has passed.
\<close>

definition NodeCache_expired :: "date \<Rightarrow> string \<Rightarrow> node_cache \<Rightarrow> bool" where
  "NodeCache_expired now key c =
     (case c key of
        None \<Rightarrow> False
      | Some (v, expiry) \<Rightarrow> expiry < now)"

text \<open>
  \<open>get\<close> logs a hit or a miss after the lookup; during the lookup the listener that
  the constructor registers for the \<open>expired\<close> event logs \<open>Cache expired\<close>.
\<close>

definition cacheService_get ::
  "date \<Rightarrow> string \<Rightarrow> node_cache \<Rightarrow> AggregatedPrice option \<times> log_entry list" where
  "cacheService_get now key c =
     (let v = NodeCache_get now key c
      in (v, (if NodeCache_expired now key c then [(Debug, ''Cache expired'')] else [])
             @ [(Debug, if v \<noteq> None then ''Cache hit'' else ''Cache miss'')]))"

text \<open>
  \<open>set(key, value, ttl?)\<close> passes \<open>ttl || config.cacheTTL\<close>: an absent or zero \<open>ttl\<close>
  is replaced by the configured one. The entry \<open>Cache set\<close> is logged by the listener the
  constructor registers for the \<open>set\<close> event.
\<close>

definition cacheService_set ::
  "config \<Rightarrow> date \<Rightarrow> string \<Rightarrow> AggregatedPrice \<Rightarrow> int option \<Rightarrow> node_cache
     \<Rightarrow> node_cache \<times> log_entry list" where
  "cacheService_set cfg now key v ttl c =
     (let t = (case ttl of None \<Rightarrow> cacheTTL cfg | Some t \<Rightarrow> if t = 0 then cacheTTL cfg else t)
      in (NodeCache_set now key v t c, [(Debug, ''Cache set'')]))"

section \<open>Price aggregation (services/aggregator.ts)\<close>

text \<open>
  \<open>fetchAllPrices\<close>: the sources are external; \<open>fetched\<close> holds, for every registered
  source in registration order, what its \<open>fetchPrice\<close> yields in this cycle: \<open>Some\<close> quote,
  or \<open>None\<close> when it throws (the callback catches, warns and returns \<open>null\<close>). So
  \<open>this.sources.length\<close> is \<open>length fetched\<close>. The warnings are listed in registration
  order; the order in which the promises settle is not modelled.
\<close>

definition fetchAllPrices :: "PriceData option list \<Rightarrow> PriceData list" where
  "fetchAllPrices fetched = map the (filter (\<lambda>r. r \<noteq> None) fetched)"

definition fetchAllPrices_logged :: "PriceData option list \<Rightarrow> log_entry list" where
  "fetchAllPrices_logged fetched =
     map (\<lambda>r. (Warn, ''Failed to fetch from source'')) (filter (\<lambda>r. r = None) fetched)"

text \<open>
  \<open>removeOutliers\<close>. \<open>Array.prototype.sort\<close> with the comparator \<open>a.price - b.price\<close> is
  a stable ascending sort by price, as \<open>sort_key\<close> is.
\<close>

definition median_of :: "PriceData list \<Rightarrow> real" where
  "median_of prices =
     (let sortedPrices = sort_key price prices
      in price (sortedPrices ! (length sortedPrices div 2)))"

definition threshold_of :: "config \<Rightarrow> PriceData list \<Rightarrow> real" where
  "threshold_of cfg prices = (real_of_int (outlierThresholdPercent cfg) / 100) * median_of prices"

definition isOutlier :: "config \<Rightarrow> PriceData list \<Rightarrow> PriceData \<Rightarrow> bool" where
  "isOutlier cfg prices p =
     (let deviation = \<bar>price p - median_of prices\<bar>
      in deviation > threshold_of cfg prices)"

definition removeOutliers :: "config \<Rightarrow> PriceData list \<Rightarrow> PriceData list" where
  "removeOutliers cfg prices =
     (if length prices < 3 then prices
      else filter (\<lambda>p. \<not> isOutlier cfg prices p) prices)"

definition removeOutliers_logged :: "config \<Rightarrow> PriceData list \<Rightarrow> log_entry list" where
  "removeOutliers_logged cfg prices =
     (if length prices < 3 then []
      else map (\<lambda>p. (Warn, ''Outlier detected'')) (filter (isOutlier cfg prices) prices))"

text \<open>
  \<open>calculateAggregatedPrice\<close>. \<open>priceData.weight || 1.0\<close> replaces an absent weight, and
  also a weight of zero, by \<open>1.0\<close>. The loop keeps the running total weight, the running
  weighted sum and the \<open>source_prices\<close> object; assigning to a key that is already there
  replaces its value in place, a new key is appended.
\<close>

definition effective_weight :: "PriceData \<Rightarrow> real" where
  "effective_weight priceData =
     (case weight priceData of None \<Rightarrow> 1 | Some w \<Rightarrow> if w = 0 then 1 else w)"

definition accumulate ::
  "real \<times> real \<times> (string \<times> SourcePriceDetail) list \<Rightarrow> PriceData
     \<Rightarrow> real \<times> real \<times> (string \<times> SourcePriceDetail) list" where
  "accumulate acc priceData =
     (case acc of (totalWeight, weightedSum, sourcePrices) \<Rightarrow>
        (let w = effective_weight priceData
         in (totalWeight + w,
             weightedSum + price priceData * w,
             AList.update (source priceData)
               \<lparr>detail_price = price priceData, detail_weight = w,
                detail_timestamp = timestamp priceData\<rparr> sourcePrices)))"

text \<open>The values of \<open>totalWeight\<close> and \<open>weightedSum\<close> when the loop has ended.\<close>

definition totalWeight_of :: "PriceData list \<Rightarrow> real" where
  "totalWeight_of prices = fst (foldl accumulate (0, 0, []) prices)"

definition weightedSum_of :: "PriceData list \<Rightarrow> real" where
  "weightedSum_of prices = fst (snd (foldl accumulate (0, 0, []) prices))"

definition mean_of :: "PriceData list \<Rightarrow> jsnum" where
  "mean_of prices =
     js_div (Fin (foldl (\<lambda>sum p. sum + price p) 0 prices)) (Fin (real (length prices)))"

definition variance_of :: "PriceData list \<Rightarrow> jsnum" where
  "variance_of prices =
     js_div (foldl (\<lambda>sum p. js_add sum (Math_pow2 (js_sub (Fin (price p)) (mean_of prices))))
               (Fin 0) prices)
            (Fin (real (length prices)))"

definition confidence_of :: "nat \<Rightarrow> PriceData list \<Rightarrow> jsnum" where
  "confidence_of nsources prices =
     (let sourceRatio = Math_min (js_div (Fin (real (length prices))) (Fin (real nsources))) (Fin 1);
          mean = mean_of prices;
          variance = variance_of prices;
          stdDev = Math_sqrt variance;
          cv = js_div stdDev mean;
          consistencyScore = Math_max (Fin 0) (js_sub (Fin 1) (js_mul cv (Fin 10)))
      in js_add (js_mul sourceRatio (Fin 0.6)) (js_mul consistencyScore (Fin 0.4)))"

text \<open>\<open>nsources\<close> is \<open>this.sources.length\<close> and \<open>now\<close> is \<open>new Date()\<close>.\<close>

definition calculateAggregatedPrice ::
  "nat \<Rightarrow> date \<Rightarrow> PriceData list \<Rightarrow> bool \<Rightarrow> AggregatedPrice" where
  "calculateAggregatedPrice nsources now prices cacheHit =
     (case foldl accumulate (0, 0, []) prices of (totalWeight, weightedSum, sourcePrices) \<Rightarrow>
        \<lparr>symbol = ''PI'',
         price_usd = js_div (Fin weightedSum) (Fin totalWeight),
         computed_at = now,
         sources_used = length prices,
         total_sources = nsources,
         aggregation_method = ''weighted_average'',
         source_prices = sourcePrices,
         confidence_score = confidence_of nsources prices,
         cache_hit = cacheHit\<rparr>)"

definition calculateAggregatedPrice_logged :: "log_entry list" where
  "calculateAggregatedPrice_logged = [(Info, ''Price aggregated'')]"

text \<open>
  \<open>getAggregatedPrice\<close>. The thrown \<open>PriceOracleError\<close> carries the two numbers its
  message is built from. \<open>now\<close> is the time of the cache lookup and \<open>settled\<close> the time,
  after all fetches have settled, at which the result is computed and stored. A call
  yields what it returns or throws, the cache it leaves and what it logged. The test
  \<open>if (cached)\<close> succeeds for every stored result, an object being truthy.
\<close>

datatype exn = PriceOracleError nat int

record call_result =
  returned :: "exn + AggregatedPrice"
  cache_after :: node_cache
  logged :: "log_entry list"

definition getAggregatedPrice ::
  "config \<Rightarrow> date \<Rightarrow> date \<Rightarrow> PriceData option list \<Rightarrow> node_cache \<Rightarrow> call_result" where
  "getAggregatedPrice cfg now settled fetched c =
     (let cacheKey = ''aggregated_price'';
          (cached, l_get) = cacheService_get now cacheKey c
      in case cached of
           Some hit \<Rightarrow> \<lparr>returned = Inr (hit\<lparr>cache_hit := True\<rparr>), cache_after = c, logged = l_get\<rparr>
         | None \<Rightarrow>
             (let prices = fetchAllPrices fetched;
                  l_fetch = l_get @ fetchAllPrices_logged fetched
              in if int (length prices) < minSourcesRequired cfg
                 then \<lparr>returned = Inl (PriceOracleError (length prices) (minSourcesRequired cfg)),
                       cache_after = c, logged = l_fetch\<rparr>
                 else
                   (let filteredPrices = removeOutliers cfg prices;
                        l_filter = l_fetch @ removeOutliers_logged cfg prices
                    in if int (length filteredPrices) < minSourcesRequired cfg
                       then \<lparr>returned =
                               Inr (calculateAggregatedPrice (length fetched) settled prices False),
                             cache_after = c,
                             logged = l_filter
                               @ [(Warn, ''Too many outliers detected, using all prices'')]
                               @ calculateAggregatedPrice_logged\<rparr>
                       else
                         (let result =
                                calculateAggregatedPrice (length fetched) settled filteredPrices False;
                              (c', l_set) = cacheService_set cfg settled cacheKey result None c
                          in \<lparr>returned = Inr result, cache_after = c',
                               logged = l_filter @ calculateAggregatedPrice_logged @ l_set\<rparr>))))"

section \<open>Binary64 arithmetic\<close>

text \<open>
  The definitions above evaluate the arithmetic of \<open>calculateAggregatedPrice\<close> exactly.
  The code evaluates the same expressions on IEEE 754 binary64 numbers, rounding the
  result of every operation to the nearest double. This section models that rounding
  (the sign of zero apart), and the next one the function as it computes on doubles.
\<close>

text \<open>
  Rounding a real to the nearest integer, a tie going to the even neighbour.
\<close>

definition round_even :: "real \<Rightarrow> int" where
  "round_even x =
     (let f = \<lfloor>x\<rfloor>; d = x - of_int f
      in if d < 1 / 2 then f else if 1 / 2 < d then f + 1 else if even f then f else f + 1)"

text \<open>
  The exponent of the binade of a non-zero number, the \<open>e\<close> with
  \<open>2^e \<le> |x| < 2^(e+1)\<close>, but not below the exponent -1022 of the subnormal numbers.
\<close>

definition binade :: "real \<Rightarrow> int" where
  "binade x = max \<lfloor>log 2 \<bar>x\<bar>\<rfloor> (- 1022)"

text \<open>The spacing of the doubles in the binade of a number (53 significant bits).\<close>

definition ulp :: "real \<Rightarrow> real" where
  "ulp x = 2 powi (binade x - 52)"

text \<open>
  The double a real number rounds to: the nearest multiple of the spacing, ties to
  even, and an infinity when that multiple reaches \<open>2^1024\<close>.
\<close>

definition binary64 :: "real \<Rightarrow> jsnum" where
  "binary64 x =
     (if x = 0 then Fin 0
      else let y = of_int (round_even (x / ulp x)) * ulp x
           in if 2 ^ 1024 \<le> \<bar>y\<bar> then signed_inf (0 < y) else Fin y)"

text \<open>
  Every arithmetic operation on doubles is the operation of the language above on the
  exact values, followed by this rounding; the special values round to themselves.
  \<open>Math.max\<close> and \<open>Math.min\<close> select an argument and do not round.
\<close>

fun round64 :: "jsnum \<Rightarrow> jsnum" where
  "round64 (Fin x) = binary64 x"
| "round64 PosInf = PosInf"
| "round64 NegInf = NegInf"
| "round64 NaN = NaN"

definition add64 :: "jsnum \<Rightarrow> jsnum \<Rightarrow> jsnum" where
  "add64 x y = round64 (js_add x y)"

definition sub64 :: "jsnum \<Rightarrow> jsnum \<Rightarrow> jsnum" where
  "sub64 x y = round64 (js_sub x y)"

definition mul64 :: "jsnum \<Rightarrow> jsnum \<Rightarrow> jsnum" where
  "mul64 x y = round64 (js_mul x y)"

definition div64 :: "jsnum \<Rightarrow> jsnum \<Rightarrow> jsnum" where
  "div64 x y = round64 (js_div x y)"

definition sqrt64 :: "jsnum \<Rightarrow> jsnum" where
  "sqrt64 x = round64 (Math_sqrt x)"

definition pow2_64 :: "jsnum \<Rightarrow> jsnum" where
  "pow2_64 x = round64 (Math_pow2 x)"

section \<open>Price aggregation on doubles\<close>

text \<open>
  \<open>calculateAggregatedPrice\<close> once more, statement by statement as before, with every
  operation rounded. The prices and weights handed to it are doubles; the literals
  \<open>0.6\<close> and \<open>0.4\<close> denote the doubles they round to.
\<close>

definition accumulate64 ::
  "jsnum \<times> jsnum \<times> (string \<times> SourcePriceDetail) list \<Rightarrow> PriceData
     \<Rightarrow> jsnum \<times> jsnum \<times> (string \<times> SourcePriceDetail) list" where
  "accumulate64 acc priceData =
     (case acc of (totalWeight, weightedSum, sourcePrices) \<Rightarrow>
        (let w = effective_weight priceData
         in (add64 totalWeight (Fin w),
             add64 weightedSum (mul64 (Fin (price priceData)) (Fin w)),
             AList.update (source priceData)
               \<lparr>detail_price = price priceData, detail_weight = w,
                detail_timestamp = timestamp priceData\<rparr> sourcePrices)))"

definition mean64 :: "PriceData list \<Rightarrow> jsnum" where
  "mean64 prices =
     div64 (foldl (\<lambda>sum p. add64 sum (Fin (price p))) (Fin 0) prices)
           (Fin (real (length prices)))"

definition variance64 :: "PriceData list \<Rightarrow> jsnum" where
  "variance64 prices =
     div64 (foldl (\<lambda>sum p. add64 sum (pow2_64 (sub64 (Fin (price p)) (mean64 prices))))
              (Fin 0) prices)
           (Fin (real (length prices)))"

definition confidence64 :: "nat \<Rightarrow> PriceData list \<Rightarrow> jsnum" where
  "confidence64 nsources prices =
     (let sourceRatio = Math_min (div64 (Fin (real (length prices))) (Fin (real nsources))) (Fin 1);
          mean = mean64 prices;
          variance = variance64 prices;
          stdDev = sqrt64 variance;
          cv = div64 stdDev mean;
          consistencyScore = Math_max (Fin 0) (sub64 (Fin 1) (mul64 cv (Fin 10)))
      in add64 (mul64 sourceRatio (binary64 0.6)) (mul64 consistencyScore (binary64 0.4)))"

definition calculateAggregatedPrice64 ::
  "nat \<Rightarrow> date \<Rightarrow> PriceData list \<Rightarrow> bool \<Rightarrow> AggregatedPrice" where
  "calculateAggregatedPrice64 nsources now prices cacheHit =
     (case foldl accumulate64 (Fin 0, Fin 0, []) prices of
        (totalWeight, weightedSum, sourcePrices) \<Rightarrow>
        \<lparr>symbol = ''PI'',
         price_usd = div64 weightedSum totalWeight,
         computed_at = now,
         sources_used = length prices,
         total_sources = nsources,
         aggregation_method = ''weighted_average'',
         source_prices = sourcePrices,
         confidence_score = confidence64 nsources prices,
         cache_hit = cacheHit\<rparr>)"

text \<open>
  The values of \<open>totalWeight\<close> and \<open>weightedSum\<close> when the loop on doubles has ended.
\<close>

definition totalWeight64 :: "PriceData list \<Rightarrow> jsnum" where
  "totalWeight64 prices = fst (foldl accumulate64 (Fin 0, Fin 0, []) prices)"

definition weightedSum64 :: "PriceData list \<Rightarrow> jsnum" where
  "weightedSum64 prices = fst (snd (foldl accumulate64 (Fin 0, Fin 0, []) prices))"

section \<open>Bounds on doubles\<close>

text \<open>The vocabulary of the theorems about the computation on doubles.\<close>

text \<open>
  A real number is a double when it rounds to itself.
\<close>

definition is_double :: "real \<Rightarrow> bool" where
  "is_double x = (binary64 x = Fin x)"



text \<open>
  The multiple of the spacing that a real rounds to, before the test for overflow.
\<close>

definition nearest :: "real \<Rightarrow> real" where
  "nearest x = of_int (round_even (x / ulp x)) * ulp x"




text \<open>
  The unit roundoff \<open>u = 2^-53\<close> of binary64 and the factor \<open>(1 + u) / (1 - u)\<close>, which
  bounds the relative error of one rounding from both sides. \<open>approx k x a\<close> says that
  \<open>a\<close> is the exact value \<open>x\<close> up to \<open>k\<close> roundings.
\<close>

definition unit_roundoff :: real where
  "unit_roundoff = 2 powi (- 53)"

definition rho :: real where
  "rho = (1 + unit_roundoff) / (1 - unit_roundoff)"

definition approx :: "nat \<Rightarrow> real \<Rightarrow> real \<Rightarrow> bool" where
  "approx k x a = (x / rho ^ k \<le> a \<and> a \<le> x * rho ^ k)"

text \<open>
  A range of prices and weights, from \<open>2^-256\<close> to \<open>2^256\<close>, on which no operation of
  the weighted average overflows or leaves the normal numbers.
\<close>

definition range_lo :: real where
  "range_lo = 2 powi (- 256)"

definition range_hi :: real where
  "range_hi = 2 powi 256"

definition in_range :: "real \<Rightarrow> bool" where
  "in_range x = (range_lo \<le> x \<and> x \<le> range_hi)"

section \<open>The confidence score in the words of the specification\<close>

text \<open>
  The Confidence Scorer as the specification words it, on the list of prices of the
  quotes used and the number \<open>T\<close> of registered sources, over the reals: the mean, the
  population standard deviation, the coefficient of variation (taken as 0 when the mean
  is 0), the consistency score and the weighted combination with the source ratio.
\<close>

definition spec_mean :: "real list \<Rightarrow> real" where
  "spec_mean xs = sum_list xs / real (length xs)"

definition spec_stdDev :: "real list \<Rightarrow> real" where
  "spec_stdDev xs = sqrt (sum_list (map (\<lambda>x. (x - spec_mean xs)\<^sup>2) xs) / real (length xs))"

definition spec_confidence :: "nat \<Rightarrow> real list \<Rightarrow> real" where
  "spec_confidence T xs =
     (let sourceRatio = min (real (length xs) / real T) 1;
          coefficientOfVariation =
            (if spec_mean xs = 0 then 0 else spec_stdDev xs / spec_mean xs);
          consistencyScore = max 0 (1 - coefficientOfVariation * 10)
      in sourceRatio * 0.6 + consistencyScore * 0.4)"

section \<open>Worked inputs\<close>

text \<open>Concrete sources, quotes and configurations on which the theorems below are run.\<close>

definition okx_source :: PriceSource where
  "okx_source = new_PriceSource ''okx'' 2 ''PI-USDT''"

text \<open>A source's first \<open>n\<close> successful fetches, the \<open>i\<close>-th taking \<open>i\<close> ms.\<close>

definition successes :: "nat \<Rightarrow> health_event list" where
  "successes n = map (\<lambda>i. Success (int i) (real i)) [0..<n]"

definition quote :: "string \<Rightarrow> real \<Rightarrow> real \<Rightarrow> PriceData" where
  "quote s p w = \<lparr>price = p, timestamp = 0, source = s, weight = Some w\<rparr>"

definition strict_config :: config where
  "strict_config = \<lparr>cacheTTL = 30, outlierThresholdPercent = 10, minSourcesRequired = 3\<rparr>"

definition three_quotes :: "PriceData list" where
  "three_quotes = [quote ''coingecko'' 1.20 1.5, quote ''bitget'' 1.22 2, quote ''okx'' 5 2]"




definition two_fetched :: "PriceData option list" where
  "two_fetched = [Some (quote ''coingecko'' 1.20 1.5), None, Some (quote ''okx'' 1.25 2)]"

text \<open>
  The double that the literal \<open>0.1\<close> denotes, the double that the sum of three of them
  rounds to, and the double next above \<open>0.1\<close>; three quotes of \<open>0.1\<close>.
\<close>

definition tenth :: real where
  "tenth = 3602879701896397 / 2 ^ 55"

definition three_tenths :: real where
  "three_tenths = 5404319552844596 / 2 ^ 54"

definition tenth_above :: real where
  "tenth_above = 7205759403792795 / 2 ^ 56"

definition tenth_quotes :: "PriceData list" where
  "tenth_quotes =
     [\<lparr>price = tenth, timestamp = 0, source = ''coingecko'', weight = None\<rparr>,
      \<lparr>price = tenth, timestamp = 0, source = ''bitget'', weight = None\<rparr>,
      \<lparr>price = tenth, timestamp = 0, source = ''okx'', weight = None\<rparr>]"




section \<open>Source health\<close>

lemma recordSuccess_last100:
  assumes "length (responseTimes this) \<le> 100"
  shows "responseTimes (recordSuccess now r this) = last100 (responseTimes this @ [r])"
proof (cases "length (responseTimes this) = 100")
  case True
  then have "responseTimes this \<noteq> []" by auto
  then have "tl (responseTimes this @ [r]) = drop 1 (responseTimes this @ [r])"
    by (cases "responseTimes this") simp_all
  with True show ?thesis
    by (simp add: recordSuccess_def Let_def last100_def)
next
  case False
  with assms have "length (responseTimes this) < 100" by simp
  then show ?thesis
    by (simp add: recordSuccess_def Let_def last100_def)
qed

lemma last100_append:
  "last100 (last100 xs @ ys) = last100 (xs @ ys)"
  by (cases "length xs \<le> 100") (auto simp: last100_def add.commute)

lemma length_last100: "length (last100 xs) \<le> 100"
  by (simp add: last100_def)

lemma record_events_last100:
  assumes "length (responseTimes this) \<le> 100"
  shows "responseTimes (record_events this evs) = last100 (responseTimes this @ latencies evs)"
  using assms
proof (induction evs arbitrary: this rule: latencies.induct)
  case 1
  then show ?case by (simp add: record_events_def last100_def)
next
  case (2 now r evs)
  let ?s = "recordSuccess now r this"
  have step: "responseTimes ?s = last100 (responseTimes this @ [r])"
    using "2.prems" by (rule recordSuccess_last100)
  then have "length (responseTimes ?s) \<le> 100"
    by (simp add: length_last100)
  then have "responseTimes (record_events ?s evs) = last100 (responseTimes ?s @ latencies evs)"
    by (rule "2.IH")
  then show ?case
    by (simp add: record_events_def step last100_append)
next
  case (3 err evs)
  have "responseTimes (recordError err this) = responseTimes this"
    by (simp add: recordError_def)
  with 3 show ?case
    by (simp add: record_events_def)
qed

lemma latencies_successes: "latencies (map (\<lambda>i. Success (f i) (g i)) xs) = map g xs"
  by (induction xs) simp_all

text \<open>
  C9. The recorded latencies of a source form a ring of capacity 100, oldest evicted
  first: after any sequence of successes and failures recorded by a freshly constructed
  source, the buffer holds exactly the last 100 response times recorded (all of them
  when there are fewer), in the order recorded, so it never holds more than 100; and
  recording into a buffer that holds 100 drops the oldest entry, the head, and appends
  the new one.
\<close>

theorem responseTimes_bounded_ring:
  "responseTimes (record_events (new_PriceSource n w s) evs) = last100 (latencies evs)
   \<and> length (responseTimes (record_events (new_PriceSource n w s) evs)) \<le> 100
   \<and> (length (responseTimes this) = 100 \<longrightarrow>
        responseTimes (recordSuccess now r this) = tl (responseTimes this) @ [r])"
proof (intro conjI)
  have fresh: "length (responseTimes (new_PriceSource n w s)) \<le> 100"
    by (simp add: new_PriceSource_def)
  from record_events_last100 [OF fresh]
  show eq: "responseTimes (record_events (new_PriceSource n w s) evs) = last100 (latencies evs)"
    by (simp add: new_PriceSource_def)
  show "length (responseTimes (record_events (new_PriceSource n w s) evs)) \<le> 100"
    by (simp add: eq length_last100)
  show "length (responseTimes this) = 100 \<longrightarrow>
        responseTimes (recordSuccess now r this) = tl (responseTimes this) @ [r]"
  proof
    assume full: "length (responseTimes this) = 100"
    then have "responseTimes this \<noteq> []" by auto
    with full show "responseTimes (recordSuccess now r this) = tl (responseTimes this) @ [r]"
      by (simp add: recordSuccess_def Let_def)
  qed
qed

theorem responseTimes_bounded_ring_witness:
  "responseTimes (record_events okx_source (successes 100)) = map real [0..<100]
   \<and> length (responseTimes (record_events okx_source (successes 100))) = 100
   \<and> responseTimes (recordSuccess 100 100 (record_events okx_source (successes 100)))
       = map real [1..<100] @ [100]
   \<and> responseTimes (record_events okx_source (successes 101)) = map real [1..<101]"
proof -
  have lat: "latencies (successes k) = map real [0..<k]" for k
    by (simp add: successes_def latencies_successes)
  have full: "responseTimes (record_events okx_source (successes 100)) = map real [0..<100]"
    using responseTimes_bounded_ring [of "''okx''" 2 "''PI-USDT''" "successes 100"]
    by (simp add: okx_source_def lat last100_def)
  then have len: "length (responseTimes (record_events okx_source (successes 100))) = 100"
    by simp
  have rest: "tl (map real [0..<100]) = map real [1..<100]"
    by (simp add: upt_conv_Cons map_tl [symmetric] del: upt_Suc)
  from responseTimes_bounded_ring [of "''okx''" 2 "''PI-USDT''" "[]"
      "record_events okx_source (successes 100)" 100 100] len
  have evict: "responseTimes (recordSuccess 100 100 (record_events okx_source (successes 100)))
       = map real [1..<100] @ [100]"
    by (simp add: full rest)
  have "drop 1 (map real [0..<101]) = map real [1..<101]"
    by (simp only: drop_map drop_upt) simp
  then have over: "responseTimes (record_events okx_source (successes 101)) = map real [1..<101]"
    using responseTimes_bounded_ring [of "''okx''" 2 "''PI-USDT''" "successes 101"]
    by (simp add: okx_source_def lat last100_def)
  from full len evict over show ?thesis by blast
qed

text \<open>
  C10. \<open>getStatus\<close> reports \<open>error\<close> only for a source that has recorded at least one
  error and no success; a freshly constructed source reports \<open>active\<close> with a success
  rate of 0 and an average response time of 0.
\<close>

theorem getStatus_error_only_after_failures:
  "(status (getStatus this) = error \<longrightarrow> 1 \<le> errorCount this \<and> successCount this = 0)
   \<and> status (getStatus (new_PriceSource n w s)) = active
   \<and> success_rate (getStatus (new_PriceSource n w s)) = 0
   \<and> avg_response_time_ms (getStatus (new_PriceSource n w s)) = 0"
  by (auto simp add: getStatus_def new_PriceSource_def Let_def split: if_splits)

theorem getStatus_error_only_after_failures_witness:
  "status (getStatus (recordError ''timeout'' okx_source)) = error
   \<and> 1 \<le> errorCount (recordError ''timeout'' okx_source)
   \<and> successCount (recordError ''timeout'' okx_source) = 0"
proof -
  have err: "status (getStatus (recordError ''timeout'' okx_source)) = error"
    by (simp add: getStatus_def recordError_def okx_source_def new_PriceSource_def)
  from getStatus_error_only_after_failures [of "recordError ''timeout'' okx_source"] err
  show ?thesis by simp
qed

section \<open>Outlier filter\<close>








section \<open>Evaluating the rounding\<close>

lemma binade_eq:
  assumes "2 powi e \<le> \<bar>x\<bar>" and "\<bar>x\<bar> < 2 powi (e + 1)" and "- 1022 \<le> e"
  shows "binade x = e"
proof -
  have pos: "0 < \<bar>x\<bar>"
    using assms(1) by (smt (verit) zero_less_power_int)
  have a: "(2::real) powr real_of_int e = 2 powi e"
    by (simp add: powr_real_of_int')
  have b: "(2::real) powr (real_of_int e + 1) = 2 powi (e + 1)"
    using powr_real_of_int' [of 2 "e + 1"] by simp
  have "\<lfloor>log 2 \<bar>x\<bar>\<rfloor> = e"
    using assms(1,2) pos by (simp add: floor_log_eq_powr_iff a b)
  with assms(3) show ?thesis
    by (simp add: binade_def)
qed

lemma binary64_eval:
  assumes "2 powi e \<le> \<bar>x\<bar>" and "\<bar>x\<bar> < 2 powi (e + 1)" and "- 1022 \<le> e"
    and "round_even (x / 2 powi (e - 52)) = m"
    and "\<bar>of_int m * 2 powi (e - 52)\<bar> < (2::real) ^ 1024"
  shows "binary64 x = Fin (of_int m * 2 powi (e - 52))"
proof -
  have "x \<noteq> 0"
    using assms(1) by (smt (verit) zero_less_power_int)
  moreover have "ulp x = 2 powi (e - 52)"
    by (simp add: ulp_def binade_eq [OF assms(1-3)])
  ultimately show ?thesis
    using assms(4,5) by (simp add: binary64_def Let_def)
qed

lemma binary64_tenth: "binary64 0.1 = Fin tenth"
proof -
  have "binary64 0.1 = Fin (of_int 7205759403792794 * 2 powi (- 4 - 52))"
    by (rule binary64_eval) (simp_all add: round_even_def power_int_minus_divide)
  then show ?thesis by (simp add: power_int_minus_divide tenth_def)
qed

lemma binary64_1tenth: "binary64 tenth = Fin tenth"
proof -
  have "binary64 tenth = Fin (of_int 7205759403792794 * 2 powi (- 4 - 52))"
    by (rule binary64_eval) (simp_all add: round_even_def power_int_minus_divide tenth_def)
  then show ?thesis by (simp add: power_int_minus_divide tenth_def)
qed

lemma binary64_2tenth: "binary64 (2 * tenth) = Fin (2 * tenth)"
proof -
  have "binary64 (2 * tenth) = Fin (of_int 7205759403792794 * 2 powi (- 3 - 52))"
    by (rule binary64_eval) (simp_all add: round_even_def power_int_minus_divide tenth_def)
  then show ?thesis by (simp add: power_int_minus_divide tenth_def)
qed

lemma binary64_3tenth: "binary64 (3 * tenth) = Fin three_tenths"
proof -
  have "binary64 (3 * tenth) = Fin (of_int 5404319552844596 * 2 powi (- 2 - 52))"
    by (rule binary64_eval) (simp_all add: round_even_def power_int_minus_divide tenth_def)
  then show ?thesis by (simp add: power_int_minus_divide three_tenths_def)
qed

lemma binary64_quotient: "binary64 (three_tenths / 3) = Fin tenth_above"
proof -
  have "binary64 (three_tenths / 3) = Fin (of_int 7205759403792795 * 2 powi (- 4 - 52))"
    by (rule binary64_eval)
      (simp_all add: round_even_def power_int_minus_divide three_tenths_def)
  then show ?thesis by (simp add: power_int_minus_divide tenth_above_def)
qed

lemma binary64_small_int: "binary64 1 = Fin 1" "binary64 2 = Fin 2" "binary64 3 = Fin 3"
proof -
  have "binary64 1 = Fin (of_int (2 ^ 52) * 2 powi (0 - 52))"
    by (rule binary64_eval) (simp_all add: round_even_def power_int_minus_divide)
  then show "binary64 1 = Fin 1" by (simp add: power_int_minus_divide)
  have "binary64 2 = Fin (of_int (2 ^ 52) * 2 powi (1 - 52))"
    by (rule binary64_eval) (simp_all add: round_even_def power_int_minus_divide)
  then show "binary64 2 = Fin 2" by (simp add: power_int_minus_divide)
  have "binary64 3 = Fin (of_int (3 * 2 ^ 51) * 2 powi (1 - 52))"
    by (rule binary64_eval) (simp_all add: round_even_def power_int_minus_divide)
  then show "binary64 3 = Fin 3" by (simp add: power_int_minus_divide)
qed

lemma round_even_of_int [simp]: "round_even (of_int k) = k"
  by (simp add: round_even_def)

lemma pow2_le_iff: "((2::real) powi a \<le> 2 powi b) = (a \<le> b)"
proof
  assume le: "(2::real) powi a \<le> 2 powi b"
  show "a \<le> b"
  proof (rule ccontr)
    assume "\<not> a \<le> b"
    then have "(2::real) powi b < 2 powi a"
      by (intro power_int_strict_increasing) simp_all
    with le show False by simp
  qed
next
  assume "a \<le> b"
  then show "(2::real) powi a \<le> 2 powi b"
    by (intro power_int_increasing) simp_all
qed

lemma pow2_less_iff: "((2::real) powi a < 2 powi b) = (a < b)"
  using pow2_le_iff [of b a] by (simp add: not_le [symmetric])

lemma binary64_power_of_two:
  assumes "- 1022 \<le> e"
  shows "binary64 (2 powi e) = (if 1024 \<le> e then PosInf else Fin (2 powi e))"
proof -
  have b: "binade (2 powi e) = e"
    using assms by (intro binade_eq) (simp_all add: power_int_strict_increasing)
  have "(2::real) powi e / 2 powi (e - 52) = 2 powi 52"
    by (simp add: power_int_diff)
  also have "\<dots> = of_int (2 ^ 52)"
    by simp
  finally have r: "round_even (2 powi e / 2 powi (e - 52)) = 2 ^ 52"
    by (simp only: round_even_of_int)
  have y: "real_of_int (2 ^ 52) * 2 powi (e - 52) = 2 powi e"
    using power_int_add [of "2::real" 52 "e - 52"] by simp
  have p: "(2::real) ^ 1024 = 2 powi 1024"
    by simp
  have abs: "\<bar>(2::real) powi e\<bar> = 2 powi e"
    by simp
  have nz: "(2::real) powi e \<noteq> 0"
    by simp
  show ?thesis
    unfolding binary64_def ulp_def b Let_def r y p abs pow2_le_iff using nz
    by (simp add: signed_inf_def del: power_int_numeral)
qed



lemma js_add_NaN [simp]: "js_add x NaN = NaN"
  by (cases x) simp_all

lemma js_mul_NaN [simp]: "js_mul x NaN = NaN"
  by (cases x) simp_all

section \<open>Weighted averager\<close>

lemma foldl_accumulate_sums:
  "fst (foldl accumulate (tw, ws, sp) prices) = tw + sum_list (map effective_weight prices)
   \<and> fst (snd (foldl accumulate (tw, ws, sp) prices))
       = ws + sum_list (map (\<lambda>p. price p * effective_weight p) prices)"
  by (induction prices arbitrary: tw ws sp) (simp_all add: accumulate_def Let_def)

lemma totalWeight_of_sum: "totalWeight_of prices = sum_list (map effective_weight prices)"
  by (simp add: totalWeight_of_def foldl_accumulate_sums)

lemma weightedSum_of_sum:
  "weightedSum_of prices = sum_list (map (\<lambda>p. price p * effective_weight p) prices)"
  by (simp add: weightedSum_of_def foldl_accumulate_sums)

lemma price_usd_calculate:
  "price_usd (calculateAggregatedPrice n now prices ch)
   = js_div (Fin (weightedSum_of prices)) (Fin (totalWeight_of prices))"
  by (simp add: calculateAggregatedPrice_def totalWeight_of_def weightedSum_of_def
      split: prod.split)

lemma effective_weight_pos:
  "(case weight p of None \<Rightarrow> True | Some w \<Rightarrow> 0 < w) \<Longrightarrow> 0 < effective_weight p"
  by (simp add: effective_weight_def split: option.splits)

lemma sum_list_pos:
  fixes f :: "'a \<Rightarrow> real"
  shows "xs \<noteq> [] \<Longrightarrow> (\<And>x. x \<in> set xs \<Longrightarrow> 0 < f x) \<Longrightarrow> 0 < sum_list (map f xs)"
proof (induction xs)
  case Nil
  then show ?case by simp
next
  case (Cons a xs)
  have "0 \<le> sum_list (map f xs)"
    by (rule sum_list_nonneg) (use Cons.prems in \<open>auto intro: less_imp_le\<close>)
  moreover have "0 < f a"
    using Cons.prems by simp
  ultimately show ?case by simp
qed

lemma totalWeight_pos:
  assumes "prices \<noteq> []"
    and "\<forall>p \<in> set prices. case weight p of None \<Rightarrow> True | Some w \<Rightarrow> 0 < w"
  shows "0 < totalWeight_of prices"
  unfolding totalWeight_of_sum
  using assms by (intro sum_list_pos) (auto intro: effective_weight_pos)

lemma weighted_bounds:
  assumes "\<And>p. p \<in> set prices \<Longrightarrow> 0 < effective_weight p"
    and "\<And>p. p \<in> set prices \<Longrightarrow> lo \<le> price p \<and> price p \<le> hi"
  shows "lo * sum_list (map effective_weight prices)
           \<le> sum_list (map (\<lambda>p. price p * effective_weight p) prices)
         \<and> sum_list (map (\<lambda>p. price p * effective_weight p) prices)
           \<le> hi * sum_list (map effective_weight prices)"
  using assms
proof (induction prices)
  case Nil
  then show ?case by simp
next
  case (Cons a ps)
  have a: "0 < effective_weight a" "lo \<le> price a" "price a \<le> hi"
    using Cons.prems by auto
  then have "lo * effective_weight a \<le> price a * effective_weight a"
    "price a * effective_weight a \<le> hi * effective_weight a"
    by (simp_all add: mult_right_mono)
  moreover have "lo * sum_list (map effective_weight ps)
                   \<le> sum_list (map (\<lambda>p. price p * effective_weight p) ps)
                 \<and> sum_list (map (\<lambda>p. price p * effective_weight p) ps)
                   \<le> hi * sum_list (map effective_weight ps)"
    using Cons.prems by (intro Cons.IH) auto
  ultimately show ?case
    by (simp add: algebra_simps)
qed



text \<open>
  Convexity in exact arithmetic: for a non-empty list of quotes whose weights are each
  positive or unset, the sum of price times weight over the sum of the weights is a
  finite number between the least and the greatest input price.
\<close>

theorem weighted_average_convex:
  assumes "prices \<noteq> []"
    and "\<forall>p \<in> set prices. case weight p of None \<Rightarrow> True | Some w \<Rightarrow> 0 < w"
  shows "\<exists>x. price_usd (calculateAggregatedPrice n now prices ch) = Fin x
             \<and> Min (set (map price prices)) \<le> x \<and> x \<le> Max (set (map price prices))"
proof -
  let ?lo = "Min (set (map price prices))" and ?hi = "Max (set (map price prices))"
  let ?W = "totalWeight_of prices" and ?S = "weightedSum_of prices"
  have W: "0 < ?W"
    by (rule totalWeight_pos [OF assms])
  have pos: "0 < effective_weight p" if "p \<in> set prices" for p
    using that assms(2) by (auto intro: effective_weight_pos)
  have rng: "?lo \<le> price p \<and> price p \<le> ?hi" if "p \<in> set prices" for p
    using that by simp
  from weighted_bounds [of prices ?lo ?hi, OF pos rng]
  have "?lo * ?W \<le> ?S" "?S \<le> ?hi * ?W"
    by (simp_all add: totalWeight_of_sum weightedSum_of_sum)
  with W have "?lo \<le> ?S / ?W" "?S / ?W \<le> ?hi"
    by (simp_all add: pos_le_divide_eq pos_divide_le_eq)
  moreover have "price_usd (calculateAggregatedPrice n now prices ch) = Fin (?S / ?W)"
    using W by (simp add: price_usd_calculate)
  ultimately show ?thesis by blast
qed



section \<open>Confidence scorer\<close>

lemma foldl_price_sum:
  "foldl (\<lambda>sum p. sum + price p) a prices = a + sum_list (map price prices)"
  by (induction prices arbitrary: a) simp_all

lemma mean_of_Fin:
  "prices \<noteq> [] \<Longrightarrow> mean_of prices = Fin (spec_mean (map price prices))"
  by (simp add: mean_of_def spec_mean_def foldl_price_sum)

lemma foldl_squares:
  "foldl (\<lambda>sum p. js_add sum (Math_pow2 (js_sub (Fin (price p)) (Fin m)))) (Fin a) prices
   = Fin (a + sum_list (map (\<lambda>x. (x - m)\<^sup>2) (map price prices)))"
  by (induction prices arbitrary: a) (simp_all add: js_sub_def o_def)

lemma variance_of_Fin:
  assumes "prices \<noteq> []"
  shows "variance_of prices
         = Fin (sum_list (map (\<lambda>x. (x - spec_mean (map price prices))\<^sup>2) (map price prices))
                / real (length prices))"
  using assms by (simp add: variance_of_def mean_of_Fin foldl_squares)

lemma stdDev_Fin:
  assumes "prices \<noteq> []"
  shows "Math_sqrt (variance_of prices) = Fin (spec_stdDev (map price prices))"
proof -
  have "0 \<le> sum_list (map (\<lambda>x. (x - spec_mean (map price prices))\<^sup>2) (map price prices))"
    by (rule sum_list_nonneg) auto
  then have "0 \<le> sum_list (map (\<lambda>x. (x - spec_mean (map price prices))\<^sup>2) (map price prices))
                / real (length prices)"
    by simp
  then show ?thesis
    using assms by (simp add: variance_of_Fin spec_stdDev_def not_less [symmetric])
qed

lemma spec_stdDev_nonneg: "0 \<le> spec_stdDev xs"
proof -
  have "0 \<le> sum_list (map (\<lambda>x. (x - spec_mean xs)\<^sup>2) xs)"
    by (rule sum_list_nonneg) auto
  then show ?thesis
    by (simp add: spec_stdDev_def)
qed

lemma confidence_score_calculate:
  "confidence_score (calculateAggregatedPrice T now prices ch) = confidence_of T prices"
  by (simp add: calculateAggregatedPrice_def split: prod.split)

lemma confidence_of_Fin:
  assumes "prices \<noteq> []" and "0 < T" and "spec_mean (map price prices) \<noteq> 0"
  shows "confidence_of T prices = Fin (spec_confidence T (map price prices))"
  using assms
  by (simp add: confidence_of_def Let_def mean_of_Fin stdDev_Fin spec_confidence_def js_sub_def)

text \<open>
  What the code does when the mean is 0: the quotient \<open>stdDev / mean\<close> is \<open>Infinity\<close>
  when the prices differ, which makes the consistency score 0, and \<open>NaN\<close> when all prices
  are 0, which makes the whole score \<open>NaN\<close>.
\<close>

lemma confidence_of_zero_mean:
  assumes "prices \<noteq> []" and "0 < T" and "spec_mean (map price prices) = 0"
  shows "confidence_of T prices
         = (if spec_stdDev (map price prices) = 0 then NaN
            else Fin (min (real (length prices) / real T) 1 * 0.6))"
  using assms spec_stdDev_nonneg [of "map price prices"]
  by (simp add: confidence_of_def Let_def mean_of_Fin stdDev_Fin js_sub_def signed_inf_def)





text \<open>
  The score in exact arithmetic: for a non-empty list of quotes with positive prices, no
  longer than the number of registered sources, it is a finite number in the closed
  interval from 0 to 1.
\<close>

theorem confidence_in_unit_interval:
  assumes "prices \<noteq> []" and "\<forall>p \<in> set prices. 0 < price p" and "length prices \<le> T"
  shows "\<exists>c. confidence_score (calculateAggregatedPrice T now prices ch) = Fin c
             \<and> 0 \<le> c \<and> c \<le> 1"
proof -
  let ?xs = "map price prices"
  have T: "0 < T"
    using assms(1,3) by (cases prices) auto
  have "0 < sum_list ?xs"
    using assms(1,2) by (intro sum_list_pos) auto
  then have mean: "0 < spec_mean ?xs"
    using assms(1) by (simp add: spec_mean_def)
  define cv where "cv = spec_stdDev ?xs / spec_mean ?xs"
  define r where "r = min (real (length ?xs) / real T) 1"
  define c where "c = max 0 (1 - cv * 10)"
  have cv: "0 \<le> cv"
    using mean by (simp add: cv_def spec_stdDev_nonneg)
  have r: "0 \<le> r" "r \<le> 1"
    by (simp_all add: r_def)
  have c: "0 \<le> c" "c \<le> 1"
    using cv by (simp_all add: c_def)
  have conf: "spec_confidence T ?xs = r * 0.6 + c * 0.4"
    using mean by (simp add: spec_confidence_def Let_def r_def c_def cv_def)
  have eq: "confidence_score (calculateAggregatedPrice T now prices ch)
            = Fin (spec_confidence T ?xs)"
    using confidence_of_Fin [OF assms(1) T] mean by (simp add: confidence_score_calculate)
  have "0 \<le> spec_confidence T ?xs \<and> spec_confidence T ?xs \<le> 1"
    unfolding conf using r c by linarith
  with eq show ?thesis by blast
qed

section \<open>Bounds on the rounding\<close>

lemma round_even_ge:
  assumes "of_int K \<le> t"
  shows "K \<le> round_even t"
proof -
  have "K \<le> \<lfloor>t\<rfloor>"
    using assms by (simp add: le_floor_iff)
  moreover have "\<lfloor>t\<rfloor> \<le> round_even t"
    by (simp add: round_even_def Let_def)
  ultimately show ?thesis by linarith
qed

lemma round_even_le:
  assumes le: "t \<le> of_int K"
  shows "round_even t \<le> K"
proof -
  have f: "\<lfloor>t\<rfloor> \<le> K"
    using floor_mono [OF le] by simp
  show ?thesis
  proof (cases "t = of_int \<lfloor>t\<rfloor>")
    case True
    then have "t - of_int \<lfloor>t\<rfloor> = 0"
      by simp
    then have "round_even t = \<lfloor>t\<rfloor>"
      by (simp add: round_even_def Let_def)
    with f show ?thesis by simp
  next
    case False
    moreover have "of_int \<lfloor>t\<rfloor> \<le> t"
      by (rule of_int_floor_le)
    ultimately have "of_int \<lfloor>t\<rfloor> < t"
      by linarith
    with le have "real_of_int \<lfloor>t\<rfloor> < of_int K"
      by linarith
    then have "\<lfloor>t\<rfloor> < K"
      by simp
    moreover have "round_even t \<le> \<lfloor>t\<rfloor> + 1"
      by (simp add: round_even_def Let_def)
    ultimately show ?thesis by linarith
  qed
qed

lemma floor_log2_bounds:
  assumes "0 < x"
  shows "2 powi \<lfloor>log 2 x\<rfloor> \<le> x" and "x < 2 powi (\<lfloor>log 2 x\<rfloor> + 1)"
proof -
  have "2 powr of_int \<lfloor>log 2 x\<rfloor> \<le> x \<and> x < 2 powr (of_int \<lfloor>log 2 x\<rfloor> + 1)"
    using floor_log_eq_powr_iff [of x 2 "\<lfloor>log 2 x\<rfloor>"] assms by simp
  moreover have "(2::real) powr (of_int \<lfloor>log 2 x\<rfloor> + 1) = 2 powi (\<lfloor>log 2 x\<rfloor> + 1)"
    using powr_real_of_int' [of 2 "\<lfloor>log 2 x\<rfloor> + 1"] by simp
  ultimately show "2 powi \<lfloor>log 2 x\<rfloor> \<le> x" and "x < 2 powi (\<lfloor>log 2 x\<rfloor> + 1)"
    by (simp_all add: powr_real_of_int')
qed

lemma ulp_pos: "0 < ulp x"
  by (simp add: ulp_def)


lemma binade_mono:
  assumes "0 < x" and "x \<le> y"
  shows "binade x \<le> binade y"
proof -
  have "log 2 \<bar>x\<bar> \<le> log 2 \<bar>y\<bar>"
    using assms by simp
  then have "\<lfloor>log 2 \<bar>x\<bar>\<rfloor> \<le> \<lfloor>log 2 \<bar>y\<bar>\<rfloor>"
    by (rule floor_mono)
  then show ?thesis
    by (simp add: binade_def)
qed



lemma round_even_0 [simp]: "round_even 0 = 0"
  by (simp add: round_even_def)

lemma binary64_nearest:
  "x \<noteq> 0 \<Longrightarrow> binary64 x
     = (if 2 ^ 1024 \<le> \<bar>nearest x\<bar> then signed_inf (0 < nearest x) else Fin (nearest x))"
  by (simp add: binary64_def nearest_def Let_def)

lemma nearest_nonneg: "0 \<le> x \<Longrightarrow> 0 \<le> nearest x"
proof -
  assume "0 \<le> x"
  then have "of_int 0 \<le> x / ulp x"
    using ulp_pos [of x] by simp
  then have "0 \<le> round_even (x / ulp x)"
    by (rule round_even_ge)
  then show ?thesis
    using ulp_pos [of x] by (simp add: nearest_def)
qed






lemma is_doubleD:
  assumes "is_double c" and "c \<noteq> 0"
  shows "nearest c = c" and "\<bar>c\<bar> < 2 ^ 1024"
  using assms by (simp_all add: is_double_def binary64_nearest signed_inf_def split: if_splits)

lemma is_double_grid:
  assumes "is_double c" and "c \<noteq> 0"
  shows "c / ulp c = of_int (round_even (c / ulp c))"
proof -
  have "of_int (round_even (c / ulp c)) * ulp c = c"
    using is_doubleD(1) [OF assms] by (simp add: nearest_def)
  then show ?thesis
    using ulp_pos [of c] by (simp add: field_simps)
qed

lemma ulp_ratio:
  assumes "binade x \<le> binade c"
  shows "ulp c = of_int (2 ^ nat (binade c - binade x)) * ulp x"
proof -
  have e: "binade c - 52 = (binade c - binade x) + (binade x - 52)"
    by simp
  have "(2::real) powi (binade c - 52)
        = 2 powi (binade c - binade x) * 2 powi (binade x - 52)"
    by (subst e, rule power_int_add) simp
  then have "ulp c = 2 powi (binade c - binade x) * 2 powi (binade x - 52)"
    by (simp only: ulp_def)
  moreover have "(2::real) powi (binade c - binade x) = of_int (2 ^ nat (binade c - binade x))"
    using assms by (simp add: power_int_def)
  ultimately show ?thesis
    by (simp add: ulp_def)
qed

lemma nearest_le_double:
  assumes c: "is_double c" and x: "0 < x" "x \<le> c"
  shows "nearest x \<le> c"
proof -
  have c0: "c \<noteq> 0" using x by simp
  define mc where "mc = round_even (c / ulp c)"
  define k where "k = nat (binade c - binade x)"
  have "binade x \<le> binade c"
    using x by (rule binade_mono)
  then have u: "ulp c = of_int (2 ^ k) * ulp x"
    unfolding k_def by (rule ulp_ratio)
  have "c = of_int mc * ulp c"
    using is_double_grid [OF c c0] ulp_pos [of c] by (simp add: mc_def field_simps)
  then have cK: "c = of_int (mc * 2 ^ k) * ulp x"
    by (simp add: u)
  then have "x / ulp x \<le> of_int (mc * 2 ^ k)"
    using x(2) ulp_pos [of x] by (simp add: field_simps)
  then have "round_even (x / ulp x) \<le> mc * 2 ^ k"
    by (rule round_even_le)
  then have "of_int (round_even (x / ulp x)) * ulp x \<le> of_int (mc * 2 ^ k) * ulp x"
    using ulp_pos [of x] by (simp only: mult_le_cancel_right_pos of_int_le_iff)
  with cK show ?thesis
    by (simp add: nearest_def)
qed












section \<open>Confidence scorer on doubles\<close>
























section \<open>Relative error of the rounding\<close>

lemma unit_roundoff_bounds: "0 < unit_roundoff" "unit_roundoff < 1 / 2"
proof -
  show "0 < unit_roundoff" by (simp add: unit_roundoff_def)
  have "unit_roundoff < 2 powi (- 1)"
    unfolding unit_roundoff_def pow2_less_iff by simp
  then show "unit_roundoff < 1 / 2" by (simp add: power_int_minus_divide)
qed

lemma rho_bounds: "1 < rho" "1 + unit_roundoff \<le> rho" "1 / rho \<le> 1 - unit_roundoff"
proof -
  note u = unit_roundoff_bounds
  have d: "0 < 1 - unit_roundoff" using u by simp
  show "1 < rho"
    using u d by (simp add: rho_def)
  show "1 + unit_roundoff \<le> rho"
    unfolding rho_def using u d by (simp add: le_divide_eq mult_left_le)
  have "1 / rho = (1 - unit_roundoff) / (1 + unit_roundoff)"
    by (simp add: rho_def)
  also have "\<dots> \<le> 1 - unit_roundoff"
    using u d by (simp add: divide_le_eq mult_left_le)
  finally show "1 / rho \<le> 1 - unit_roundoff" .
qed

lemma rho_power_ge1: "1 \<le> rho ^ k"
  using rho_bounds(1) by (simp add: one_le_power)

lemma round_even_error: "\<bar>of_int (round_even t) - t\<bar> \<le> 1 / 2"
  by (auto simp: round_even_def Let_def)

lemma nearest_error:
  assumes "2 powi (- 1022) \<le> x"
  shows "\<bar>nearest x - x\<bar> \<le> unit_roundoff * x"
proof -
  have x0: "0 < x"
    using assms by (smt (verit) zero_less_power_int)
  have "- 1022 \<le> \<lfloor>log 2 x\<rfloor>"
  proof -
    have "(2::real) powi (- 1022) < 2 powi (\<lfloor>log 2 x\<rfloor> + 1)"
      using assms floor_log2_bounds(2) [OF x0] by linarith
    then show ?thesis
      by (simp only: pow2_less_iff)
  qed
  then have b: "binade x = \<lfloor>log 2 x\<rfloor>"
    using x0 by (simp add: binade_def)
  have low: "2 powi binade x \<le> x"
    using floor_log2_bounds(1) [OF x0] by (simp add: b)
  have "(of_int (round_even (x / ulp x)) - x / ulp x) * ulp x = nearest x - x"
    using ulp_pos [of x] by (simp add: nearest_def left_diff_distrib)
  then have "\<bar>nearest x - x\<bar> = \<bar>(of_int (round_even (x / ulp x)) - x / ulp x) * ulp x\<bar>"
    by simp
  also have "\<dots> = \<bar>of_int (round_even (x / ulp x)) - x / ulp x\<bar> * ulp x"
    using ulp_pos [of x] by (simp only: abs_mult abs_of_pos)
  also have "\<dots> \<le> 1 / 2 * ulp x"
    using round_even_error [of "x / ulp x"] ulp_pos [of x]
    by (simp only: mult_le_cancel_right_pos)
  also have "1 / 2 * ulp x = unit_roundoff * 2 powi binade x"
  proof -
    have "(2::real) powi (binade x - 52) = 2 powi (- 52) * 2 powi binade x"
      using power_int_add [of "2::real" "- 52" "binade x"] by simp
    moreover have "1 / 2 * (2::real) powi (- 52) = 2 powi (- 53)"
      using power_int_add [of "2::real" "- 1" "- 52"] by (simp add: power_int_minus_divide)
    ultimately show ?thesis
      by (simp add: ulp_def unit_roundoff_def)
  qed
  also have "\<dots> \<le> unit_roundoff * x"
    using low unit_roundoff_bounds(1) by simp
  finally show ?thesis .
qed

lemma rho_le: "rho \<le> 1 + 2 powi (- 51)"
proof -
  note u = unit_roundoff_bounds
  have "rho = 1 + 2 * unit_roundoff / (1 - unit_roundoff)"
    using u by (simp add: rho_def field_simps)
  also have "2 * unit_roundoff / (1 - unit_roundoff) \<le> 2 * unit_roundoff / (1 / 2)"
    using u by (intro divide_left_mono) simp_all
  also have "2 * unit_roundoff / (1 / 2) = 2 powi (- 51)"
    using power_int_add [of "2::real" 2 "- 53"] by (simp add: unit_roundoff_def)
  finally show ?thesis by simp
qed

lemma rho_power_le_2:
  assumes "k \<le> 2 ^ 34"
  shows "rho ^ k \<le> 2"
proof -
  define v :: real where "v = 2 powi (- 51)"
  have v: "0 < v" "v < 1"
    unfolding v_def using pow2_less_iff [of "- 51" 0] by simp_all
  have kv: "real k * v \<le> 1 / 2"
  proof -
    have "real k \<le> 2 ^ 34"
      using assms by (metis of_nat_le_iff of_nat_numeral of_nat_power)
    then have "real k * v \<le> 2 ^ 34 * v"
      using v by simp
    also have "\<dots> = 2 powi (- 17)"
      using power_int_add [of "2::real" 34 "- 51"] by (simp add: v_def)
    also have "\<dots> \<le> 2 powi (- 1)"
      unfolding pow2_le_iff by simp
    finally show ?thesis by (simp add: power_int_minus_divide)
  qed
  have "1 + real k * (- v) \<le> (1 + (- v)) ^ k"
    using v by (intro Bernoulli_inequality) simp
  then have low: "1 / 2 \<le> (1 - v) ^ k"
    using kv by simp
  have "(1 + v) * (1 - v) \<le> 1"
    using v by (simp add: algebra_simps)
  then have "((1 + v) * (1 - v)) ^ k \<le> 1"
    using v by (intro power_le_one) simp_all
  then have "(1 + v) ^ k * (1 - v) ^ k \<le> 1"
    by (simp add: power_mult_distrib)
  moreover have "0 \<le> (1 + v) ^ k"
    using v by simp
  ultimately have "(1 + v) ^ k * (1 / 2) \<le> 1"
    using low by (smt (verit) mult_left_mono)
  then have "(1 + v) ^ k \<le> 2"
    by simp
  moreover have "rho ^ k \<le> (1 + v) ^ k"
    using rho_le rho_bounds(1) by (intro power_mono) (simp_all add: v_def)
  ultimately show ?thesis by linarith
qed

lemma approx_refl: "0 \<le> x \<Longrightarrow> approx k x x"
proof -
  assume x: "0 \<le> x"
  have "x / rho ^ k \<le> x / 1"
    using x rho_power_ge1 [of k] by (intro divide_left_mono) simp_all
  moreover have "x * 1 \<le> x * rho ^ k"
    using x rho_power_ge1 [of k] by (intro mult_left_mono)
  ultimately show ?thesis
    by (simp add: approx_def)
qed

lemma approx_nonneg: "approx k x a \<Longrightarrow> 0 \<le> x \<Longrightarrow> 0 \<le> a"
proof -
  assume "approx k x a" and x: "0 \<le> x"
  then have "x / rho ^ k \<le> a"
    by (simp add: approx_def)
  moreover have "0 \<le> x / rho ^ k"
    using x rho_bounds(1) by simp
  ultimately show ?thesis by linarith
qed

lemma approx_add: "approx k x a \<Longrightarrow> approx k y b \<Longrightarrow> approx k (x + y) (a + b)"
  by (simp add: approx_def add_divide_distrib distrib_right)

lemma approx_mono:
  assumes "approx j x a" and "j \<le> k" and "0 \<le> x"
  shows "approx k x a"
proof -
  have p: "rho ^ j \<le> rho ^ k"
    using assms(2) rho_bounds(1) by (intro power_increasing) simp_all
  have pos: "0 < rho ^ j"
    using rho_bounds(1) by simp
  have "x / rho ^ k \<le> x / rho ^ j"
    using assms(3) p pos by (intro divide_left_mono) simp_all
  moreover have "x * rho ^ j \<le> x * rho ^ k"
    using assms(3) p by (intro mult_left_mono)
  ultimately show ?thesis
    using assms(1) by (simp add: approx_def)
qed

lemma approx_trans:
  assumes "approx j x a" and "approx k a b"
  shows "approx (j + k) x b"
proof -
  have pk: "0 \<le> rho ^ k"
    using rho_bounds(1) by simp
  have xa: "x / rho ^ j \<le> a" "a \<le> x * rho ^ j" and ab: "a / rho ^ k \<le> b" "b \<le> a * rho ^ k"
    using assms by (simp_all add: approx_def)
  have "x / rho ^ (j + k) = x / rho ^ j / rho ^ k"
    by (simp add: power_add)
  also have "\<dots> \<le> a / rho ^ k"
    using xa(1) pk by (rule divide_right_mono)
  also note ab(1)
  finally have low: "x / rho ^ (j + k) \<le> b" .
  note ab(2)
  also have "a * rho ^ k \<le> x * rho ^ j * rho ^ k"
    using xa(2) pk by (rule mult_right_mono)
  also have "\<dots> = x * rho ^ (j + k)"
    by (simp add: power_add)
  finally show ?thesis
    using low by (simp add: approx_def)
qed

lemma approx_div:
  assumes "approx j x a" and "approx k y b" and "0 \<le> x" and "0 < y"
  shows "approx (j + k) (x / y) (a / b)"
proof -
  have pj: "0 < rho ^ j" and pk: "0 < rho ^ k"
    using rho_bounds(1) by simp_all
  have b_low: "y / rho ^ k \<le> b" and b_up: "b \<le> y * rho ^ k"
    and a_low: "x / rho ^ j \<le> a" and a_up: "a \<le> x * rho ^ j"
    using assms(1,2) by (simp_all add: approx_def)
  have ylow: "0 < y / rho ^ k"
    using assms(4) pk by simp
  then have b: "0 < b"
    using b_low by linarith
  have yup: "0 < y * rho ^ k"
    using assms(4) pk by simp
  have a: "0 \<le> a"
    using assms(1,3) by (rule approx_nonneg)
  have "0 < b * (y / rho ^ k)"
    using b ylow by (rule mult_pos_pos)
  with b_low a have "a / b \<le> a / (y / rho ^ k)"
    by (rule divide_left_mono)
  also have "\<dots> \<le> x * rho ^ j / (y / rho ^ k)"
    using a_up less_imp_le [OF ylow] by (rule divide_right_mono)
  also have "\<dots> = x / y * rho ^ (j + k)"
    by (simp add: power_add)
  finally have up: "a / b \<le> x / y * rho ^ (j + k)" .
  have "x / y / rho ^ (j + k) = x / rho ^ j / (y * rho ^ k)"
    by (simp add: power_add)
  also have "\<dots> \<le> a / (y * rho ^ k)"
    using a_low less_imp_le [OF yup] by (rule divide_right_mono)
  also have "\<dots> \<le> a / b"
  proof -
    have "0 < (y * rho ^ k) * b"
      using yup b by (rule mult_pos_pos)
    with b_up a show ?thesis
      by (rule divide_left_mono)
  qed
  finally show ?thesis
    using up by (simp add: approx_def)
qed

lemma approx_within_2:
  assumes "approx k x a" and "0 \<le> x" and "rho ^ k \<le> 2"
  shows "x / 2 \<le> a" and "a \<le> 2 * x"
proof -
  have pk: "0 < rho ^ k"
    using rho_bounds(1) by simp
  have xa: "x / rho ^ k \<le> a" "a \<le> x * rho ^ k"
    using assms(1) by (simp_all add: approx_def)
  have "0 < 2 * rho ^ k"
    using pk by simp
  with assms(3,2) have "x / 2 \<le> x / rho ^ k"
    by (rule divide_left_mono)
  with xa(1) show "x / 2 \<le> a"
    by linarith
  have "x * rho ^ k \<le> x * 2"
    using assms(3,2) by (rule mult_left_mono)
  with xa(2) show "a \<le> 2 * x"
    by linarith
qed

lemma is_double_top: "is_double (2 powi 1023)"
proof -
  have "binary64 (2 powi 1023) = (if (1024::int) \<le> 1023 then PosInf else Fin (2 powi 1023))"
    by (rule binary64_power_of_two) simp
  then show ?thesis
    unfolding is_double_def by (simp del: power_int_numeral)
qed

lemma binary64_approx:
  assumes "2 powi (- 1022) \<le> x" and "x \<le> 2 powi 1023"
  shows "\<exists>y. binary64 x = Fin y \<and> approx 1 x y"
proof -
  have x0: "0 < x"
    using assms(1) by (smt (verit) zero_less_power_int)
  have up: "nearest x \<le> 2 powi 1023"
    using is_double_top x0 assms(2) by (rule nearest_le_double)
  have low: "0 \<le> nearest x"
    using x0 by (intro nearest_nonneg) simp
  have "(2::real) powi 1023 < 2 powi 1024"
    unfolding pow2_less_iff by simp
  moreover have "(2::real) ^ 1024 = 2 powi 1024"
    by simp
  ultimately have "\<bar>nearest x\<bar> < 2 ^ 1024"
    using up low by linarith
  then have val: "binary64 x = Fin (nearest x)"
    using x0 by (simp add: binary64_nearest del: power_int_numeral)
  have err: "\<bar>nearest x - x\<bar> \<le> unit_roundoff * x"
    using assms(1) by (rule nearest_error)
  have "x * (1 / rho) \<le> x * (1 - unit_roundoff)"
    using rho_bounds(3) x0 by (intro mult_left_mono) simp_all
  moreover have "x * (1 + unit_roundoff) \<le> x * rho"
    using rho_bounds(2) x0 by (intro mult_left_mono) simp_all
  ultimately have "x / rho ^ 1 \<le> nearest x \<and> nearest x \<le> x * rho ^ 1"
    using err by (simp add: algebra_simps abs_le_iff)
  then show ?thesis
    using val by (simp add: approx_def)
qed

section \<open>Weighted averager on doubles\<close>

lemma foldl_accumulate64:
  "fst (foldl accumulate64 (tw, ws, sp) prices)
     = foldl (\<lambda>tw p. add64 tw (Fin (effective_weight p))) tw prices
   \<and> fst (snd (foldl accumulate64 (tw, ws, sp) prices))
     = foldl (\<lambda>ws p. add64 ws (mul64 (Fin (price p)) (Fin (effective_weight p)))) ws prices"
  by (induction prices arbitrary: tw ws sp) (simp_all add: accumulate64_def Let_def)

lemma price_usd_calculate64:
  "price_usd (calculateAggregatedPrice64 n now prices ch)
   = div64 (weightedSum64 prices) (totalWeight64 prices)"
  by (simp add: calculateAggregatedPrice64_def totalWeight64_def weightedSum64_def
      split: prod.split)

lemma range_facts:
  "0 < range_lo" "0 < range_hi"
  "2 powi (- 1022) \<le> range_lo"
  "2 * (2 ^ 32 * range_hi) + range_hi \<le> 2 powi 1023"
  "2 powi (- 1022) \<le> range_lo * range_lo"
  "range_hi * range_hi \<le> 2 powi 1023"
  "2 powi (- 1022) \<le> range_lo * range_lo / 2"
  "2 * (2 ^ 32 * (range_hi * range_hi)) + 2 * (range_hi * range_hi) \<le> 2 powi 1023"
  "2 powi (- 1022) \<le> range_lo / 2"
  "2 * range_hi \<le> 2 powi 1023"
  by (simp_all add: range_lo_def range_hi_def power_int_minus_divide)

lemma in_rangeD:
  assumes "in_range x"
  shows "0 < x" and "range_lo \<le> x" and "x \<le> range_hi"
proof -
  show "range_lo \<le> x" and "x \<le> range_hi"
    using assms by (simp_all add: in_range_def)
  then show "0 < x"
    using range_facts(1) by linarith
qed

lemma sum_list_le:
  fixes f :: "'a \<Rightarrow> real"
  assumes "\<And>x. x \<in> set xs \<Longrightarrow> f x \<le> B"
  shows "sum_list (map f xs) \<le> real (length xs) * B"
  using assms by (induction xs) (auto simp: algebra_simps intro: add_mono)

lemma sum_list_ge0:
  fixes f :: "'a \<Rightarrow> real"
  assumes "\<And>x. x \<in> set xs \<Longrightarrow> 0 \<le> f x"
  shows "0 \<le> sum_list (map f xs)"
  using assms by (intro sum_list_nonneg) auto

lemma totalWeight64_approx:
  assumes "\<forall>p \<in> set prices. in_range (effective_weight p)" and "length prices < 2 ^ 32"
  shows "\<exists>a. totalWeight64 prices = Fin a
           \<and> approx (length prices) (sum_list (map effective_weight prices)) a"
proof -
  let ?f = "\<lambda>tw p. add64 tw (Fin (effective_weight p))"
  have "\<exists>a. foldl ?f (Fin 0) prices = Fin a
           \<and> approx (length prices) (sum_list (map effective_weight prices)) a"
    using assms
  proof (induction prices rule: rev_induct)
    case Nil
    show ?case by (simp add: approx_def)
  next
    case (snoc q qs)
    let ?k = "length qs" and ?W = "sum_list (map effective_weight qs)"
    let ?w = "effective_weight q"
    obtain a where a: "foldl ?f (Fin 0) qs = Fin a" "approx ?k ?W a"
      using snoc by auto
    have w: "0 < ?w" "range_lo \<le> ?w" "?w \<le> range_hi"
      using snoc.prems(1) in_rangeD [of ?w] by simp_all
    have W0: "0 \<le> ?W"
      using snoc.prems(1) by (intro sum_list_ge0) (auto dest: in_rangeD(1) intro: less_imp_le)
    have WB: "?W \<le> real ?k * range_hi"
      using snoc.prems(1) by (intro sum_list_le) (auto dest: in_rangeD(3))
    have "?k \<le> 2 ^ 32" using snoc.prems(2) by simp
    then have k: "real ?k \<le> 2 ^ 32"
      by (metis of_nat_le_iff of_nat_numeral of_nat_power)
    have "?k \<le> 2 ^ 34" using snoc.prems(2) by simp
    then have r2: "rho ^ ?k \<le> 2" by (rule rho_power_le_2)
    have a0: "0 \<le> a" using a(2) W0 by (rule approx_nonneg)
    have a2: "a \<le> 2 * ?W" using a(2) W0 r2 by (rule approx_within_2)
    have "real ?k * range_hi \<le> 2 ^ 32 * range_hi"
      using k range_facts(2) by (intro mult_right_mono) simp_all
    then have "a + ?w \<le> 2 * (2 ^ 32 * range_hi) + range_hi"
      using a2 WB w(3) by linarith
    also note range_facts(4)
    finally have up: "a + ?w \<le> 2 powi 1023" .
    have low: "2 powi (- 1022) \<le> a + ?w"
      using a0 w(2) range_facts(3) by linarith
    obtain y where y: "binary64 (a + ?w) = Fin y" "approx 1 (a + ?w) y"
      using binary64_approx [OF low up] by blast
    have "approx ?k (?W + ?w) (a + ?w)"
      using a(2) w(1) by (intro approx_add approx_refl) simp_all
    then have "approx (?k + 1) (?W + ?w) y"
      using y(2) by (rule approx_trans)
    then show ?case
      using a(1) y(1) by (simp add: add64_def)
  qed
  then show ?thesis
    by (simp add: totalWeight64_def foldl_accumulate64)
qed

lemma weightedSum64_approx:
  assumes "\<forall>p \<in> set prices. in_range (price p) \<and> in_range (effective_weight p)"
    and "length prices < 2 ^ 32"
  shows "\<exists>s. weightedSum64 prices = Fin s
           \<and> approx (length prices + 1)
                 (sum_list (map (\<lambda>p. price p * effective_weight p) prices)) s"
proof -
  let ?t = "\<lambda>p. price p * effective_weight p"
  let ?f = "\<lambda>ws p. add64 ws (mul64 (Fin (price p)) (Fin (effective_weight p)))"
  have prod: "range_lo * range_lo \<le> ?t p \<and> ?t p \<le> range_hi * range_hi"
    if "in_range (price p)" "in_range (effective_weight p)" for p
    using in_rangeD [OF that(1)] in_rangeD [OF that(2)] range_facts(1)
    by (intro conjI mult_mono) simp_all
  have "\<exists>s. foldl ?f (Fin 0) prices = Fin s
           \<and> approx (length prices + 1) (sum_list (map ?t prices)) s"
    using assms
  proof (induction prices rule: rev_induct)
    case Nil
    show ?case by (simp add: approx_def)
  next
    case (snoc q qs)
    let ?k = "length qs" and ?S = "sum_list (map ?t qs)"
    obtain s where s: "foldl ?f (Fin 0) qs = Fin s" "approx (?k + 1) ?S s"
      using snoc by auto
    have t: "range_lo * range_lo \<le> ?t q" "?t q \<le> range_hi * range_hi"
      using prod [of q] snoc.prems(1) by simp_all
    have t0: "0 \<le> ?t q"
      using t(1) range_facts(1) by (smt (verit) mult_pos_pos)
    have S0: "0 \<le> ?S"
    proof (rule sum_list_ge0)
      fix p assume "p \<in> set qs"
      then have "range_lo * range_lo \<le> ?t p"
        using prod [of p] snoc.prems(1) by simp
      then show "0 \<le> ?t p"
        using range_facts(1) by (smt (verit) mult_pos_pos)
    qed
    have SB: "?S \<le> real ?k * (range_hi * range_hi)"
    proof (rule sum_list_le)
      fix p assume "p \<in> set qs"
      then show "?t p \<le> range_hi * range_hi"
        using prod [of p] snoc.prems(1) by simp
    qed
    have "?k \<le> 2 ^ 32" using snoc.prems(2) by simp
    then have k: "real ?k \<le> 2 ^ 32"
      by (metis of_nat_le_iff of_nat_numeral of_nat_power)
    have "?k + 1 \<le> 2 ^ 34" using snoc.prems(2) by simp
    then have r2: "rho ^ (?k + 1) \<le> 2" by (rule rho_power_le_2)
    have r1: "rho ^ 1 \<le> 2"
      by (rule rho_power_le_2) simp
    have tl: "2 powi (- 1022) \<le> ?t q"
      using t(1) range_facts(5) by linarith
    have tu: "?t q \<le> 2 powi 1023"
      using t(2) range_facts(6) by linarith
    obtain y where y: "binary64 (?t q) = Fin y" "approx 1 (?t q) y"
      using binary64_approx [OF tl tu] by blast
    have y2: "?t q / 2 \<le> y" "y \<le> 2 * ?t q"
      using y(2) t0 r1 by (rule approx_within_2)+
    have s0: "0 \<le> s" using s(2) S0 by (rule approx_nonneg)
    have s2: "s \<le> 2 * ?S" using s(2) S0 r2 by (rule approx_within_2)
    have "real ?k * (range_hi * range_hi) \<le> 2 ^ 32 * (range_hi * range_hi)"
      using k range_facts(2) by (intro mult_right_mono) simp_all
    then have "s + y \<le> 2 * (2 ^ 32 * (range_hi * range_hi)) + 2 * (range_hi * range_hi)"
      using s2 SB y2(2) t(2) by linarith
    also note range_facts(8)
    finally have up: "s + y \<le> 2 powi 1023" .
    have "range_lo * range_lo / 2 \<le> ?t q / 2"
      using t(1) by simp
    then have low: "2 powi (- 1022) \<le> s + y"
      using s0 y2(1) range_facts(7) by linarith
    obtain z where z: "binary64 (s + y) = Fin z" "approx 1 (s + y) z"
      using binary64_approx [OF low up] by blast
    have "approx (?k + 1) (?t q) y"
      using y(2) _ t0 by (rule approx_mono) simp
    with s(2) have "approx (?k + 1) (?S + ?t q) (s + y)"
      by (rule approx_add)
    then have "approx (?k + 1 + 1) (?S + ?t q) z"
      using z(2) by (rule approx_trans)
    then show ?case
      using s(1) y(1) z(1) by (simp add: add64_def mul64_def)
  qed
  then show ?thesis
    by (simp add: weightedSum64_def foldl_accumulate64)
qed

lemma in_range_1: "in_range 1"
  by (simp add: in_range_def range_lo_def range_hi_def power_int_minus_divide)

lemma effective_weight_in_range:
  assumes "case weight p of None \<Rightarrow> True | Some w \<Rightarrow> in_range w"
  shows "in_range (effective_weight p)"
proof (cases "weight p")
  case None
  then show ?thesis
    by (simp add: effective_weight_def in_range_1)
next
  case (Some w)
  with assms have "in_range w" by simp
  moreover from this have "w \<noteq> 0"
    using in_rangeD(1) [of w] by simp
  ultimately show ?thesis
    using Some by (simp add: effective_weight_def)
qed

text \<open>
  C7 (amended). For a non-empty list of fewer than \<open>2^32\<close> quotes whose prices and
  weights lie between \<open>2^-256\<close> and \<open>2^256\<close> (an unset weight counts as 1.0), the
  weighted average that the code computes on doubles is a finite number \<open>x\<close> with
  \<open>min / rho^(2n+2) \<le> x \<le> max * rho^(2n+2)\<close>, for \<open>n\<close> quotes with least price \<open>min\<close>
  and greatest price \<open>max\<close>: it lies within \<open>[min, max]\<close> up to a relative rounding
  error of about \<open>(2n + 2) * 2^-52\<close>.
\<close>

theorem weighted_average64_nearly_convex:
  assumes "prices \<noteq> []" and "length prices < 2 ^ 32"
    and "\<forall>p \<in> set prices. in_range (price p)"
    and "\<forall>p \<in> set prices. case weight p of None \<Rightarrow> True | Some w \<Rightarrow> in_range w"
  shows "\<exists>x. price_usd (calculateAggregatedPrice64 n now prices ch) = Fin x
            \<and> Min (set (map price prices)) / rho ^ (2 * length prices + 2) \<le> x
            \<and> x \<le> Max (set (map price prices)) * rho ^ (2 * length prices + 2)"
proof -
  let ?n = "length prices"
  let ?lo = "Min (set (map price prices))" and ?hi = "Max (set (map price prices))"
  let ?W = "sum_list (map effective_weight prices)"
  let ?S = "sum_list (map (\<lambda>p. price p * effective_weight p) prices)"
  have eff: "\<forall>p \<in> set prices. in_range (effective_weight p)"
    using assms(4) by (auto intro: effective_weight_in_range)
  have both: "\<forall>p \<in> set prices. in_range (price p) \<and> in_range (effective_weight p)"
    using assms(3) eff by simp
  obtain a where a: "totalWeight64 prices = Fin a" "approx ?n ?W a"
    using totalWeight64_approx [OF eff assms(2)] by blast
  obtain s where s: "weightedSum64 prices = Fin s" "approx (?n + 1) ?S s"
    using weightedSum64_approx [OF both assms(2)] by blast
  have wpos: "0 < effective_weight p" if "p \<in> set prices" for p
    using that eff in_rangeD(1) by blast
  have W: "0 < ?W"
    using assms(1) wpos by (intro sum_list_pos)
  have rng: "?lo \<le> price p \<and> price p \<le> ?hi" if "p \<in> set prices" for p
    using that by simp
  from weighted_bounds [of prices ?lo ?hi, OF wpos rng]
  have SW: "?lo * ?W \<le> ?S" "?S \<le> ?hi * ?W"
    by simp_all
  have lo_in: "?lo \<in> price ` set prices" and hi_in: "?hi \<in> price ` set prices"
    using assms(1) by (simp_all only: set_map) (auto intro: Min_in Max_in)
  from lo_in obtain p where p: "p \<in> set prices" "?lo = price p"
    by (rule imageE)
  from hi_in obtain q where q: "q \<in> set prices" "?hi = price q"
    by (rule imageE)
  have lo: "range_lo \<le> ?lo"
    unfolding p(2) using assms(3) p(1) by (intro in_rangeD(2)) simp
  have hi: "?hi \<le> range_hi"
    unfolding q(2) using assms(3) q(1) by (intro in_rangeD(3)) simp
  have q_low: "?lo \<le> ?S / ?W" and q_up: "?S / ?W \<le> ?hi"
    using SW W by (simp_all add: pos_le_divide_eq pos_divide_le_eq)
  have q0: "0 \<le> ?S / ?W"
    using q_low lo range_facts(1) by linarith
  have S0: "0 \<le> ?S"
    using q0 W by (simp add: zero_le_divide_iff)
  have pn: "0 < rho ^ ?n"
    using rho_bounds(1) by simp
  have "0 < ?W / rho ^ ?n"
    using W pn by simp
  moreover have "?W / rho ^ ?n \<le> a"
    using a(2) by (simp add: approx_def)
  ultimately have a0: "0 < a" by linarith
  have quot: "approx (?n + 1 + ?n) (?S / ?W) (s / a)"
    using s(2) a(2) S0 W by (rule approx_div)
  have "?n + 1 + ?n \<le> 2 ^ 34" using assms(2) by simp
  then have r2: "rho ^ (?n + 1 + ?n) \<le> 2" by (rule rho_power_le_2)
  have within: "?S / ?W / 2 \<le> s / a" "s / a \<le> 2 * (?S / ?W)"
    using quot q0 r2 by (rule approx_within_2)+
  have "range_lo / 2 \<le> ?S / ?W / 2"
    using q_low lo by simp
  then have low: "2 powi (- 1022) \<le> s / a"
    using within(1) range_facts(9) by linarith
  have "2 * (?S / ?W) \<le> 2 * range_hi"
    using q_up hi by simp
  then have up: "s / a \<le> 2 powi 1023"
    using within(2) range_facts(10) by linarith
  obtain x where x: "binary64 (s / a) = Fin x" "approx 1 (s / a) x"
    using binary64_approx [OF low up] by blast
  have "approx (?n + 1 + ?n + 1) (?S / ?W) x"
    using quot x(2) by (rule approx_trans)
  then have ap: "approx (2 * ?n + 2) (?S / ?W) x"
    by (simp add: mult_2)
  let ?R = "rho ^ (2 * ?n + 2)"
  have R: "0 < ?R"
    using rho_bounds(1) by simp
  have "?lo / ?R \<le> ?S / ?W / ?R"
    using q_low less_imp_le [OF R] by (rule divide_right_mono)
  moreover have "?S / ?W * ?R \<le> ?hi * ?R"
    using q_up less_imp_le [OF R] by (rule mult_right_mono)
  ultimately have "?lo / ?R \<le> x \<and> x \<le> ?hi * ?R"
    using ap by (simp add: approx_def)
  moreover have "price_usd (calculateAggregatedPrice64 n now prices ch) = Fin x"
    using a0 by (simp add: price_usd_calculate64 a(1) s(1) div64_def x(1))
  ultimately show ?thesis by blast
qed

theorem weighted_average64_nearly_convex_witness:
  "tenth_quotes \<noteq> [] \<and> length tenth_quotes < 2 ^ 32
   \<and> list_all (\<lambda>p. in_range (price p) \<and> weight p = None) tenth_quotes
   \<and> (\<exists>x. price_usd (calculateAggregatedPrice64 3 0 tenth_quotes False) = Fin x
           \<and> tenth / rho ^ 8 \<le> x \<and> x \<le> tenth * rho ^ 8)"
proof -
  have ne: "tenth_quotes \<noteq> []" and len: "length tenth_quotes < 2 ^ 32"
    by (simp_all add: tenth_quotes_def)
  have t: "in_range tenth"
    by (simp add: in_range_def range_lo_def range_hi_def tenth_def power_int_minus_divide)
  then have prices: "\<forall>p \<in> set tenth_quotes. in_range (price p)"
    by (simp add: tenth_quotes_def)
  have weights: "\<forall>p \<in> set tenth_quotes. case weight p of None \<Rightarrow> True | Some w \<Rightarrow> in_range w"
    by (simp add: tenth_quotes_def)
  have unset: "\<forall>p \<in> set tenth_quotes. weight p = None"
    by (simp add: tenth_quotes_def)
  have ext: "Min (set (map price tenth_quotes)) = tenth" "Max (set (map price tenth_quotes)) = tenth"
    "2 * length tenth_quotes + 2 = 8"
    by (simp_all add: tenth_quotes_def)
  from weighted_average64_nearly_convex [OF ne len prices weights, of 3 0 False]
  have "\<exists>x. price_usd (calculateAggregatedPrice64 3 0 tenth_quotes False) = Fin x
           \<and> tenth / rho ^ 8 \<le> x \<and> x \<le> tenth * rho ^ 8"
    unfolding ext .
  with ne len prices unset show ?thesis
    by (simp only: list_all_iff) blast
qed

text \<open>
  The claim C7 as written, about the price the code computes, fails on three quotes of
  0.1 with unset weights: on doubles the weighted sum rounds to 0.30000000000000004 and
  its quotient by 3 to 0.10000000000000002, the double next above the greatest price.
\<close>

theorem weighted_average_binary64_counterexample:
  "binary64 0.1 = Fin tenth
   \<and> tenth_quotes \<noteq> []
   \<and> list_all (\<lambda>p. weight p = None \<and> price p = tenth) tenth_quotes
   \<and> price_usd (calculateAggregatedPrice64 3 0 tenth_quotes False) = Fin tenth_above
   \<and> Max (set (map price tenth_quotes)) = tenth
   \<and> tenth < tenth_above"
proof -
  have "price_usd (calculateAggregatedPrice64 3 0 tenth_quotes False) = Fin tenth_above"
    by (simp add: calculateAggregatedPrice64_def tenth_quotes_def accumulate64_def
        effective_weight_def add64_def mul64_def div64_def binary64_1tenth binary64_2tenth
        binary64_3tenth binary64_quotient binary64_small_int)
  moreover have "Max (set (map price tenth_quotes)) = tenth"
    by (simp add: tenth_quotes_def)
  moreover have "tenth < tenth_above"
    by (simp add: tenth_def tenth_above_def)
  ultimately show ?thesis
    by (simp add: binary64_tenth) (simp add: tenth_quotes_def)
qed

section \<open>Aggregator\<close>

lemma removeOutliers_three_quotes:
  "removeOutliers strict_config three_quotes
   = [quote ''coingecko'' 1.20 1.5, quote ''bitget'' 1.22 2]"
  by (simp add: removeOutliers_def isOutlier_def median_of_def threshold_of_def
      three_quotes_def quote_def strict_config_def)

lemma fetchAllPrices_all: "fetchAllPrices (map Some qs) = qs"
  by (induction qs) (simp_all add: fetchAllPrices_def)

lemma length_removeOutliers: "length (removeOutliers cfg Q) \<le> length Q"
  by (simp add: removeOutliers_def)

lemma cacheService_get_miss:
  assumes "NodeCache_get now key c = None"
  obtains l where "cacheService_get now key c = (None, l)"
  using assms by (simp add: cacheService_get_def)

lemma cacheService_get_hit:
  "NodeCache_get now key c = Some v
   \<Longrightarrow> cacheService_get now key c = (Some v, [(Debug, ''Cache hit'')])"
  by (simp add: cacheService_get_def NodeCache_get_def NodeCache_expired_def
      split: option.splits prod.splits if_splits)

lemma getAggregatedPrice_hit:
  assumes "NodeCache_get now ''aggregated_price'' c = Some v"
  shows "getAggregatedPrice cfg now settled fetched c
         = \<lparr>returned = Inr (v\<lparr>cache_hit := True\<rparr>), cache_after = c,
            logged = [(Debug, ''Cache hit'')]\<rparr>"
  by (simp add: getAggregatedPrice_def cacheService_get_hit [OF assms])

lemma getAggregatedPrice_insufficient:
  assumes "NodeCache_get now ''aggregated_price'' c = None"
    and "int (length (fetchAllPrices fetched)) < minSourcesRequired cfg"
  shows "getAggregatedPrice cfg now settled fetched c
         = \<lparr>returned = Inl (PriceOracleError (length (fetchAllPrices fetched))
                               (minSourcesRequired cfg)),
            cache_after = c,
            logged = snd (cacheService_get now ''aggregated_price'' c)
              @ fetchAllPrices_logged fetched\<rparr>"
proof -
  obtain l where "cacheService_get now ''aggregated_price'' c = (None, l)"
    using assms(1) by (rule cacheService_get_miss)
  with assms(2) show ?thesis
    by (simp add: getAggregatedPrice_def)
qed

lemma getAggregatedPrice_fallback:
  assumes "NodeCache_get now ''aggregated_price'' c = None"
    and "minSourcesRequired cfg \<le> int (length (fetchAllPrices fetched))"
    and "int (length (removeOutliers cfg (fetchAllPrices fetched))) < minSourcesRequired cfg"
  shows "getAggregatedPrice cfg now settled fetched c
         = \<lparr>returned = Inr (calculateAggregatedPrice (length fetched) settled
                               (fetchAllPrices fetched) False),
            cache_after = c,
            logged = snd (cacheService_get now ''aggregated_price'' c)
              @ fetchAllPrices_logged fetched
              @ removeOutliers_logged cfg (fetchAllPrices fetched)
              @ [(Warn, ''Too many outliers detected, using all prices'')]
              @ calculateAggregatedPrice_logged\<rparr>"
proof -
  obtain l where "cacheService_get now ''aggregated_price'' c = (None, l)"
    using assms(1) by (rule cacheService_get_miss)
  with assms(2,3) show ?thesis
    by (simp add: getAggregatedPrice_def Let_def)
qed

lemma getAggregatedPrice_fresh:
  assumes "NodeCache_get now ''aggregated_price'' c = None"
    and "minSourcesRequired cfg \<le> int (length (fetchAllPrices fetched))"
    and "minSourcesRequired cfg \<le> int (length (removeOutliers cfg (fetchAllPrices fetched)))"
  shows "getAggregatedPrice cfg now settled fetched c
         = \<lparr>returned = Inr (calculateAggregatedPrice (length fetched) settled
                               (removeOutliers cfg (fetchAllPrices fetched)) False),
            cache_after = c(''aggregated_price'' \<mapsto>
              (calculateAggregatedPrice (length fetched) settled
                 (removeOutliers cfg (fetchAllPrices fetched)) False,
               settled + cacheTTL cfg * 1000)),
            logged = snd (cacheService_get now ''aggregated_price'' c)
              @ fetchAllPrices_logged fetched
              @ removeOutliers_logged cfg (fetchAllPrices fetched)
              @ calculateAggregatedPrice_logged @ [(Debug, ''Cache set'')]\<rparr>"
proof -
  obtain l where "cacheService_get now ''aggregated_price'' c = (None, l)"
    using assms(1) by (rule cacheService_get_miss)
  with assms(2,3) show ?thesis
    by (simp add: getAggregatedPrice_def Let_def cacheService_set_def NodeCache_set_def)
qed

lemma calculateAggregatedPrice_cache_hit:
  "cache_hit (calculateAggregatedPrice n now prices ch) = ch"
  by (simp add: calculateAggregatedPrice_def split: prod.split)

text \<open>The main path: the fresh result is stored, and a call before its expiry returns it.\<close>

lemma fresh_result_cached:
  assumes miss: "NodeCache_get now ''aggregated_price'' c = None"
    and enough: "minSourcesRequired cfg \<le> int (length (fetchAllPrices fetched))"
    and kept: "minSourcesRequired cfg \<le> int (length (removeOutliers cfg (fetchAllPrices fetched)))"
    and window: "now' \<le> settled + cacheTTL cfg * 1000"
  shows "\<exists>r. returned (getAggregatedPrice cfg now settled fetched c) = Inr r
           \<and> cache_hit r = False
           \<and> returned (getAggregatedPrice cfg now' settled' fetched'
                 (cache_after (getAggregatedPrice cfg now settled fetched c)))
               = Inr (r\<lparr>cache_hit := True\<rparr>)"
proof -
  let ?r = "calculateAggregatedPrice (length fetched) settled
              (removeOutliers cfg (fetchAllPrices fetched)) False"
  let ?R = "getAggregatedPrice cfg now settled fetched c"
  have first: "returned ?R = Inr ?r"
    and stored: "cache_after ?R = c(''aggregated_price'' \<mapsto> (?r, settled + cacheTTL cfg * 1000))"
    by (simp_all add: getAggregatedPrice_fresh [OF miss enough kept])
  have "NodeCache_get now' ''aggregated_price'' (cache_after ?R) = Some ?r"
    using window by (simp add: stored NodeCache_get_def)
  then have "returned (getAggregatedPrice cfg now' settled' fetched' (cache_after ?R))
             = Inr (?r\<lparr>cache_hit := True\<rparr>)"
    by (simp add: getAggregatedPrice_hit)
  with first show ?thesis
    by (simp add: calculateAggregatedPrice_cache_hit)
qed

text \<open>
  C2. A call that misses the cache fails with the insufficient-sources error exactly
  when fewer than \<open>minSourcesRequired\<close> quotes were fetched, which is the same as both
  the filtered and the unfiltered list being below the minimum; and when it fails, the
  cache is left as it was.
\<close>

theorem insufficient_sources_iff:
  assumes "NodeCache_get now ''aggregated_price'' c = None"
  shows "(isl (returned (getAggregatedPrice cfg now settled fetched c))
            \<longleftrightarrow> int (length (fetchAllPrices fetched)) < minSourcesRequired cfg)
       \<and> (isl (returned (getAggregatedPrice cfg now settled fetched c))
            \<longleftrightarrow> int (length (removeOutliers cfg (fetchAllPrices fetched))) < minSourcesRequired cfg
                \<and> int (length (fetchAllPrices fetched)) < minSourcesRequired cfg)
       \<and> (isl (returned (getAggregatedPrice cfg now settled fetched c))
            \<longrightarrow> returned (getAggregatedPrice cfg now settled fetched c)
                  = Inl (PriceOracleError (length (fetchAllPrices fetched)) (minSourcesRequired cfg))
                \<and> cache_after (getAggregatedPrice cfg now settled fetched c) = c)"
proof (cases "int (length (fetchAllPrices fetched)) < minSourcesRequired cfg")
  case True
  moreover have "int (length (removeOutliers cfg (fetchAllPrices fetched))) < minSourcesRequired cfg"
    using True length_removeOutliers [of cfg "fetchAllPrices fetched"] by linarith
  ultimately show ?thesis
    by (simp add: getAggregatedPrice_insufficient [OF assms])
next
  case False
  then have enough: "minSourcesRequired cfg \<le> int (length (fetchAllPrices fetched))"
    by simp
  show ?thesis
  proof (cases "int (length (removeOutliers cfg (fetchAllPrices fetched))) < minSourcesRequired cfg")
    case True
    with False show ?thesis
      by (simp add: getAggregatedPrice_fallback [OF assms enough])
  next
    case few: False
    then have "minSourcesRequired cfg \<le> int (length (removeOutliers cfg (fetchAllPrices fetched)))"
      by simp
    with False show ?thesis
      by (simp add: getAggregatedPrice_fresh [OF assms enough])
  qed
qed

theorem insufficient_sources_iff_witness:
  "NodeCache_get 0 ''aggregated_price'' Map.empty = None
   \<and> int (length (fetchAllPrices two_fetched)) < minSourcesRequired strict_config
   \<and> returned (getAggregatedPrice strict_config 0 5 two_fetched Map.empty)
       = Inl (PriceOracleError 2 3)
   \<and> cache_after (getAggregatedPrice strict_config 0 5 two_fetched Map.empty) = Map.empty"
proof -
  have miss: "NodeCache_get 0 ''aggregated_price'' Map.empty = None"
    by (simp add: NodeCache_get_def)
  have Q: "length (fetchAllPrices two_fetched) = 2"
    by (simp add: fetchAllPrices_def two_fetched_def)
  have few: "int (length (fetchAllPrices two_fetched)) < minSourcesRequired strict_config"
    by (simp add: Q strict_config_def)
  have m: "minSourcesRequired strict_config = 3"
    by (simp add: strict_config_def)
  from insufficient_sources_iff [OF miss, of strict_config 5 two_fetched] few
  have "returned (getAggregatedPrice strict_config 0 5 two_fetched Map.empty)
          = Inl (PriceOracleError (length (fetchAllPrices two_fetched)) (minSourcesRequired strict_config))
        \<and> cache_after (getAggregatedPrice strict_config 0 5 two_fetched Map.empty) = Map.empty"
    by blast
  with miss few show ?thesis
    unfolding Q m by blast
qed

text \<open>
  C4. When a call that misses the cache fetches at least \<open>minSourcesRequired\<close> quotes
  and the outlier filter leaves fewer than that, the call does not fail: it returns the
  result computed from all the fetched quotes, and the warning that all prices are used
  is logged.
\<close>

theorem fallback_uses_all_quotes:
  assumes "NodeCache_get now ''aggregated_price'' c = None"
    and "minSourcesRequired cfg \<le> int (length (fetchAllPrices fetched))"
    and "int (length (removeOutliers cfg (fetchAllPrices fetched))) < minSourcesRequired cfg"
  shows "returned (getAggregatedPrice cfg now settled fetched c)
           = Inr (calculateAggregatedPrice (length fetched) settled (fetchAllPrices fetched) False)
         \<and> (Warn, ''Too many outliers detected, using all prices'')
             \<in> set (logged (getAggregatedPrice cfg now settled fetched c))"
  by (simp add: getAggregatedPrice_fallback [OF assms])

theorem fallback_uses_all_quotes_witness:
  "NodeCache_get 0 ''aggregated_price'' Map.empty = None
   \<and> minSourcesRequired strict_config \<le> int (length (fetchAllPrices (map Some three_quotes)))
   \<and> int (length (removeOutliers strict_config (fetchAllPrices (map Some three_quotes))))
       < minSourcesRequired strict_config
   \<and> returned (getAggregatedPrice strict_config 0 5 (map Some three_quotes) Map.empty)
       = Inr (calculateAggregatedPrice 3 5 three_quotes False)
   \<and> sources_used (calculateAggregatedPrice 3 5 three_quotes False) = 3"
proof -
  have miss: "NodeCache_get 0 ''aggregated_price'' Map.empty = None"
    by (simp add: NodeCache_get_def)
  have enough: "minSourcesRequired strict_config
                  \<le> int (length (fetchAllPrices (map Some three_quotes)))"
    by (simp add: fetchAllPrices_all) (simp add: three_quotes_def strict_config_def)
  have few: "int (length (removeOutliers strict_config (fetchAllPrices (map Some three_quotes))))
               < minSourcesRequired strict_config"
    by (simp add: fetchAllPrices_all removeOutliers_three_quotes) (simp add: strict_config_def)
  have n: "length (map Some three_quotes) = 3"
    by (simp add: three_quotes_def)
  have used: "sources_used (calculateAggregatedPrice 3 5 three_quotes False) = 3"
    by (simp add: calculateAggregatedPrice_def three_quotes_def split: prod.split)
  from fallback_uses_all_quotes [OF miss enough few, of 5]
  have "returned (getAggregatedPrice strict_config 0 5 (map Some three_quotes) Map.empty)
          = Inr (calculateAggregatedPrice 3 5 three_quotes False)"
    unfolding n fetchAllPrices_all by blast
  with miss enough few used show ?thesis by blast
qed

text \<open>
  C1 at the failing input. With \<open>minSourcesRequired = 3\<close> and three quotes 1.20, 1.22
  and 5.00, the filter drops the third quote and the call returns, from the fallback
  branch, the result computed from all three with \<open>cache_hit = false\<close>; the cache is
  still empty afterwards, so a second call 10 ms later, on which every source fails,
  throws the insufficient-sources error instead of returning the first result with
  \<open>cache_hit = true\<close>.
\<close>

theorem fallback_result_not_cached:
  "returned (getAggregatedPrice strict_config 0 5 (map Some three_quotes) Map.empty)
     = Inr (calculateAggregatedPrice 3 5 three_quotes False)
   \<and> cache_hit (calculateAggregatedPrice 3 5 three_quotes False) = False
   \<and> cache_after (getAggregatedPrice strict_config 0 5 (map Some three_quotes) Map.empty)
       = Map.empty
   \<and> returned (getAggregatedPrice strict_config 10 15 [None, None, None]
        (cache_after (getAggregatedPrice strict_config 0 5 (map Some three_quotes) Map.empty)))
       = Inl (PriceOracleError 0 3)"
proof -
  have miss: "NodeCache_get t ''aggregated_price'' Map.empty = None" for t
    by (simp add: NodeCache_get_def)
  have enough: "minSourcesRequired strict_config
                  \<le> int (length (fetchAllPrices (map Some three_quotes)))"
    by (simp add: fetchAllPrices_all) (simp add: three_quotes_def strict_config_def)
  have few: "int (length (removeOutliers strict_config (fetchAllPrices (map Some three_quotes))))
               < minSourcesRequired strict_config"
    by (simp add: fetchAllPrices_all removeOutliers_three_quotes) (simp add: strict_config_def)
  have n: "length (map Some three_quotes) = 3"
    by (simp add: three_quotes_def)
  have first: "returned (getAggregatedPrice strict_config 0 5 (map Some three_quotes) Map.empty)
                 = Inr (calculateAggregatedPrice 3 5 three_quotes False)"
    and kept: "cache_after (getAggregatedPrice strict_config 0 5 (map Some three_quotes) Map.empty)
                 = Map.empty"
    using n by (simp_all add: getAggregatedPrice_fallback [OF miss enough few] fetchAllPrices_all)
  have none: "fetchAllPrices [None, None, None] = []"
    by (simp add: fetchAllPrices_def)
  have second: "returned (getAggregatedPrice strict_config 10 15 [None, None, None] Map.empty)
                  = Inl (PriceOracleError 0 3)"
    by (simp add: getAggregatedPrice_insufficient [OF miss] none strict_config_def)
  from first kept second show ?thesis
    by (simp add: calculateAggregatedPrice_cache_hit)
qed

end
